theory Spec2Isabelle
  imports Main "HOL-Library.Word" "HOL-Library.Multiset"
begin

section \<open>Data model of the RPC service (package v1)\<close>

text \<open>
  The service sits between the RPC transport and the graph package. The graph package, the
  storage backends, the roaring bitmap library and the JSON encoder are collaborators: they
  enter the model as parameters (\<open>marshal\<close> for \<^verbatim>\<open>json.Marshal\<close>, \<open>pe\<close> for
  \<^verbatim>\<open>graph.ParseAndExecute\<close>, \<open>addNode\<close> for \<^verbatim>\<open>graph.AddNode\<close>, a record of results for
  \<^verbatim>\<open>graph.Storage\<close>), so every theorem holds for any behaviour they may have.

  A \<^verbatim>\<open>roaring.Bitmap\<close> is a finite set of \<^verbatim>\<open>uint32\<close>; its \<^verbatim>\<open>ToArray\<close> lists the members in
  ascending (unsigned) order.
\<close>

type_synonym bitmap = "32 word set"

definition ToArray :: "bitmap \<Rightarrow> 32 word list" where
  "ToArray b = sorted_list_of_set b"

text \<open>
  Go errors. \<open>Errorf msg\<close> is \<^verbatim>\<open>fmt.Errorf(msg)\<close>, \<open>Wrapf msg err\<close> is
  \<^verbatim>\<open>fmt.Errorf(msg + ": %w", err)\<close>, and \<open>External\<close> stands for an error value made by a
  collaborator (storage, JSON encoder, query evaluator, context).
\<close>

datatype error = Errorf string | Wrapf string error | External string

text \<open>\<^verbatim>\<open>graph.Node\<close>; the metadata type is \<^verbatim>\<open>any\<close> in Go and a type parameter here.\<close>

record 'm graph_Node =
  ID :: "32 word"
  Name :: string
  Type :: string
  Metadata :: 'm
  Children :: bitmap
  Parents :: bitmap

text \<open>\<^verbatim>\<open>service.Node\<close>, the wire form of a node (fields Id, Name, Type, Metadata, Dependencies,
  Dependents).\<close>

record service_Node =
  Id :: "32 word"
  svc_Name :: string
  svc_Type :: string
  svc_Metadata :: string
  Dependencies :: "32 word list"
  Dependents :: "32 word list"

text \<open>The struct \<^verbatim>\<open>Query\<close> of package v1 and its wire form \<^verbatim>\<open>service.Query\<close>.\<close>

record 'm Query =
  Node :: "'m graph_Node"
  Output :: "32 word list"

record service_Query =
  svc_Node :: service_Node
  svc_Output :: "32 word list"

text \<open>
  The part of \<^verbatim>\<open>graph.Storage\<close> the service reads. A value of this record is one state of
  the storage seen through its read operations; each operation may fail. \<^verbatim>\<open>GetNodes\<close> returns
  the nodes in the order in which the service's \<^verbatim>\<open>range\<close> loops visit them. The cache type
  is opaque to the service.
\<close>

record ('m, 'c) Storage =
  ToBeCached :: "error + 32 word list"
  GetAllKeys :: "error + 32 word list"
  GetNodes :: "32 word list \<Rightarrow> error + 'm graph_Node list"
  GetCaches :: "32 word list \<Rightarrow> error + 'c"
  GetNode :: "32 word \<Rightarrow> error + 'm graph_Node"
  NameToID :: "string \<Rightarrow> error + 32 word"
  GetNodesByGlob :: "string \<Rightarrow> error + 'm graph_Node list"

record ('m, 'c) Service =
  storage :: "('m, 'c) Storage"
  concurrency :: "32 word"

text \<open>
  \<^verbatim>\<open>context.Context\<close>: the caller's cancellation token. \<open>canceled_at = Some t\<close> says that the
  token is cancelled once \<open>t\<close> worker messages have been sent, \<open>None\<close> that it never is.
\<close>

datatype Context = Context (canceled_at: "nat option")

text \<open>Requests that carry a script (\<^verbatim>\<open>QueryRequest\<close>, \<^verbatim>\<open>CustomLeaderboardRequest\<close>), and
  \<^verbatim>\<open>connect.Response\<close> with its message and header.\<close>

record ScriptRequest =
  Script :: string

record 'a Response =
  Msg :: 'a
  Header :: "(string \<times> string) list"

definition NewResponse :: "'a \<Rightarrow> 'a Response" where
  "NewResponse msg = \<lparr>Msg = msg, Header = []\<rparr>"

definition Header_Set :: "'a Response \<Rightarrow> string \<Rightarrow> string \<Rightarrow> 'a Response" where
  "Header_Set res k v = res\<lparr>Header := (k, v) # filter (\<lambda>kv. fst kv \<noteq> k) (Header res)\<rparr>"

datatype GetNodeResponse = GetNodeResponse service_Node
datatype GetNodeByNameResponse = GetNodeByNameResponse service_Node
datatype GetNodesByGlobResponse = GetNodesByGlobResponse "service_Node list"
datatype AddNodeResponse = AddNodeResponse service_Node
datatype AllKeysResponse = AllKeysResponse "service_Node list"
datatype QueryResponse = QueryResponse "service_Node list"
datatype HealthCheckResponse = HealthCheckResponse string

text \<open>The \<^verbatim>\<open>Queries\<close> field is a \<^verbatim>\<open>[]*service.Query\<close>: a slot is \<open>None\<close> while it holds the
  nil pointer.\<close>

datatype CustomLeaderboardResponse = CustomLeaderboardResponse "service_Query option list"

text \<open>
  What a call of \<^verbatim>\<open>CustomLeaderboard\<close> can do: return a response, return an error, block for
  ever on a channel operation, or panic.
\<close>

datatype 'a outcome = Ok 'a | Err error | Blocked | Panic

text \<open>
  The calls an operation makes to its collaborators, in program order. \<open>Call_ParseAndExecute
  name\<close> is a call of \<^verbatim>\<open>graph.ParseAndExecute\<close> with focus \<open>name\<close>; in the leaderboard it is
  recorded when the worker goroutine that makes the call is started.
\<close>

datatype call =
    Call_ToBeCached
  | Call_GetAllKeys
  | Call_GetNodes "32 word list"
  | Call_GetCaches "32 word list"
  | Call_ParseAndExecute string

section \<open>Conversion to the wire form\<close>

definition NodeToServiceNode ::
  "('m \<Rightarrow> error + string) \<Rightarrow> 'm graph_Node \<Rightarrow> error + service_Node" where
  "NodeToServiceNode marshal node =
     (case marshal (Metadata node) of
        Inl err \<Rightarrow> Inl err
      | Inr data \<Rightarrow>
          Inr \<lparr>Id = ID node, svc_Name = Name node, svc_Type = Type node, svc_Metadata = data,
               Dependencies = ToArray (Children node), Dependents = ToArray (Parents node)\<rparr>)"

definition NewService :: "('m, 'c) Storage \<Rightarrow> 32 word \<Rightarrow> ('m, 'c) Service" where
  "NewService st conc = \<lparr>storage = st, concurrency = conc\<rparr>"

text \<open>
  The loop shared by \<^verbatim>\<open>GetNodesByGlob\<close>, \<^verbatim>\<open>AllKeys\<close> and \<^verbatim>\<open>Query\<close>: convert every node in
  order, append it to the result, and stop at the first conversion that fails.
\<close>

fun convert_nodes ::
  "('m \<Rightarrow> error + string) \<Rightarrow> 'm graph_Node list \<Rightarrow> error + service_Node list" where
  "convert_nodes marshal [] = Inr []"
| "convert_nodes marshal (node # rest) =
     (case NodeToServiceNode marshal node of
        Inl err \<Rightarrow> Inl (Wrapf ''failed to convert node to service node'' err)
      | Inr serviceNode \<Rightarrow>
          (case convert_nodes marshal rest of
             Inl err \<Rightarrow> Inl err
           | Inr serviceNodes \<Rightarrow> Inr (serviceNode # serviceNodes)))"

section \<open>Node look-ups\<close>

text \<open>The request of each look-up carries one field, passed here directly.\<close>

definition Service_GetNode ::
  "('m \<Rightarrow> error + string) \<Rightarrow> ('m, 'c) Service \<Rightarrow> Context \<Rightarrow> 32 word
     \<Rightarrow> error + GetNodeResponse Response" where
  "Service_GetNode marshal s ctx req_Id =
     (case GetNode (storage s) req_Id of
        Inl err \<Rightarrow> Inl (Wrapf ''failed to get node by id'' err)
      | Inr node \<Rightarrow>
          (case NodeToServiceNode marshal node of
             Inl err \<Rightarrow> Inl (Wrapf ''failed to convert node to service node'' err)
           | Inr serviceNode \<Rightarrow> Inr (NewResponse (GetNodeResponse serviceNode))))"

definition Service_GetNodeByName ::
  "('m \<Rightarrow> error + string) \<Rightarrow> ('m, 'c) Service \<Rightarrow> Context \<Rightarrow> string
     \<Rightarrow> error + GetNodeByNameResponse Response" where
  "Service_GetNodeByName marshal s ctx req_Name =
     (case NameToID (storage s) req_Name of
        Inl err \<Rightarrow> Inl (Wrapf ''failed to get node by name'' err)
      | Inr nid \<Rightarrow>
          (case GetNode (storage s) nid of
             Inl err \<Rightarrow> Inl (Wrapf ''failed to get node by id'' err)
           | Inr node \<Rightarrow>
               (case NodeToServiceNode marshal node of
                  Inl err \<Rightarrow> Inl (Wrapf ''failed to convert node to service node'' err)
                | Inr serviceNode \<Rightarrow> Inr (NewResponse (GetNodeByNameResponse serviceNode)))))"

definition Service_GetNodesByGlob ::
  "('m \<Rightarrow> error + string) \<Rightarrow> ('m, 'c) Service \<Rightarrow> Context \<Rightarrow> string
     \<Rightarrow> error + GetNodesByGlobResponse Response" where
  "Service_GetNodesByGlob marshal s ctx req_Pattern =
     (case GetNodesByGlob (storage s) req_Pattern of
        Inl err \<Rightarrow> Inl (Wrapf ''failed to get nodes by glob'' err)
      | Inr nodes \<Rightarrow>
          (case convert_nodes marshal nodes of
             Inl err \<Rightarrow> Inl err
           | Inr serviceNodes \<Rightarrow> Inr (NewResponse (GetNodesByGlobResponse serviceNodes))))"

text \<open>\<^verbatim>\<open>graph.AddNode\<close> is the parameter \<open>addNode\<close>; the request carries a \<^verbatim>\<open>service.Node\<close>.\<close>

definition Service_AddNode ::
  "('m \<Rightarrow> error + string)
     \<Rightarrow> (('m, 'c) Storage \<Rightarrow> string \<Rightarrow> string \<Rightarrow> string \<Rightarrow> error + 'm graph_Node)
     \<Rightarrow> ('m, 'c) Service \<Rightarrow> Context \<Rightarrow> service_Node \<Rightarrow> error + AddNodeResponse Response" where
  "Service_AddNode marshal addNode s ctx req_Node =
     (case addNode (storage s) (svc_Type req_Node) (svc_Metadata req_Node) (svc_Name req_Node) of
        Inl err \<Rightarrow> Inl (Wrapf ''failed to add node'' err)
      | Inr resultNode \<Rightarrow>
          (case NodeToServiceNode marshal resultNode of
             Inl err \<Rightarrow> Inl (Wrapf ''failed to convert node to service node'' err)
           | Inr serviceNode \<Rightarrow> Inr (NewResponse (AddNodeResponse serviceNode))))"

definition Service_AllKeys ::
  "('m \<Rightarrow> error + string) \<Rightarrow> ('m, 'c) Service \<Rightarrow> Context
     \<Rightarrow> error + AllKeysResponse Response" where
  "Service_AllKeys marshal s ctx =
     (case GetAllKeys (storage s) of
        Inl err \<Rightarrow> Inl (Wrapf ''failed to get all keys'' err)
      | Inr keys \<Rightarrow>
          (case GetNodes (storage s) keys of
             Inl err \<Rightarrow> Inl (Wrapf ''failed to get nodes by keys'' err)
           | Inr nodes \<Rightarrow>
               (case convert_nodes marshal nodes of
                  Inl err \<Rightarrow> Inl err
                | Inr resultNodes \<Rightarrow> Inr (NewResponse (AllKeysResponse resultNodes)))))"

definition Service_Check ::
  "('m, 'c) Service \<Rightarrow> Context \<Rightarrow> unit \<Rightarrow> error + HealthCheckResponse Response" where
  "Service_Check s ctx req = Inr (NewResponse (HealthCheckResponse ''ok''))"

section \<open>Query\<close>

text \<open>
  The request pointer may be nil (\<open>None\<close>). The result is paired with the calls made to the
  storage and to the evaluator.
\<close>

definition Service_Query ::
  "('m \<Rightarrow> error + string)
     \<Rightarrow> (string \<Rightarrow> ('m, 'c) Storage \<Rightarrow> string \<Rightarrow> 'm graph_Node list \<Rightarrow> 'c \<Rightarrow> bool \<Rightarrow> error + bitmap)
     \<Rightarrow> ('m, 'c) Service \<Rightarrow> Context \<Rightarrow> ScriptRequest option
     \<Rightarrow> call list \<times> (error + QueryResponse Response)" where
  "Service_Query marshal pe s ctx req =
     (case req of
        None \<Rightarrow> ([], Inl (Errorf ''request is nil''))
      | Some msg \<Rightarrow>
     (case GetAllKeys (storage s) of
        Inl err \<Rightarrow> ([Call_GetAllKeys], Inl (Wrapf ''failed to get all keys'' err))
      | Inr keys \<Rightarrow>
     (case GetNodes (storage s) keys of
        Inl err \<Rightarrow> ([Call_GetAllKeys, Call_GetNodes keys],
                    Inl (Wrapf ''failed to get nodes by keys'' err))
      | Inr nodes \<Rightarrow>
     (case GetCaches (storage s) keys of
        Inl err \<Rightarrow> ([Call_GetAllKeys, Call_GetNodes keys, Call_GetCaches keys],
                    Inl (Wrapf ''failed to get caches by keys'' err))
      | Inr caches \<Rightarrow>
     (case ToBeCached (storage s) of
        Inl err \<Rightarrow> ([Call_GetAllKeys, Call_GetNodes keys, Call_GetCaches keys, Call_ToBeCached],
                    Inl (Wrapf ''failed to get to be cached nodes'' err))
      | Inr cacheStack \<Rightarrow>
     (case pe (Script msg) (storage s) '''' nodes caches (length cacheStack = 0) of
        Inl err \<Rightarrow> ([Call_GetAllKeys, Call_GetNodes keys, Call_GetCaches keys, Call_ToBeCached,
                     Call_ParseAndExecute ''''],
                    Inl (Wrapf ''failed to parse and execute script'' err))
      | Inr result \<Rightarrow>
     (case GetNodes (storage s) (ToArray result) of
        Inl err \<Rightarrow> ([Call_GetAllKeys, Call_GetNodes keys, Call_GetCaches keys, Call_ToBeCached,
                     Call_ParseAndExecute '''', Call_GetNodes (ToArray result)],
                    Inl (Wrapf ''failed to get nodes by ids'' err))
      | Inr outputNodes \<Rightarrow>
          ([Call_GetAllKeys, Call_GetNodes keys, Call_GetCaches keys, Call_ToBeCached,
            Call_ParseAndExecute '''', Call_GetNodes (ToArray result)],
           (case convert_nodes marshal outputNodes of
              Inl err \<Rightarrow> Inl err
            | Inr resultNodes \<Rightarrow>
                Inr (Header_Set (NewResponse (QueryResponse resultNodes))
                       ''Service-Version'' ''v1''))))))))))"

section \<open>The result heap of the leaderboard\<close>

text \<open>
  \<^verbatim>\<open>queryHeap\<close> is a slice of queries with the methods that \<^verbatim>\<open>container/heap\<close> asks for.
  \<^verbatim>\<open>Less\<close> compares the lengths of the two outputs and nothing else.
\<close>

definition queryHeap_Len :: "'m Query list \<Rightarrow> nat" where
  "queryHeap_Len h = length h"

definition queryHeap_Less :: "'m Query list \<Rightarrow> nat \<Rightarrow> nat \<Rightarrow> bool" where
  "queryHeap_Less h i j = (length (Output (h ! i)) < length (Output (h ! j)))"

definition queryHeap_Swap :: "'m Query list \<Rightarrow> nat \<Rightarrow> nat \<Rightarrow> 'm Query list" where
  "queryHeap_Swap h i j = h[i := h ! j, j := h ! i]"

definition queryHeap_Push :: "'m Query list \<Rightarrow> 'm Query \<Rightarrow> 'm Query list" where
  "queryHeap_Push h x = h @ [x]"

definition queryHeap_Pop :: "'m Query list \<Rightarrow> 'm Query \<times> 'm Query list" where
  "queryHeap_Pop h = (let old = h; n = length old; x = old ! (n - 1) in (x, take (n - 1) old))"

text \<open>
  The functions of Go's \<^verbatim>\<open>container/heap\<close> that the leaderboard calls, over \<^verbatim>\<open>queryHeap\<close>.
  Indices are natural numbers: in \<^verbatim>\<open>up\<close>, Go computes the parent of \<open>j = 0\<close> as
  \<^verbatim>\<open>(0 - 1) / 2 = 0\<close> (division truncates towards zero) and stops because \<^verbatim>\<open>i == j\<close>;
  truncating subtraction gives the same parent here. The overflow test \<^verbatim>\<open>j1 < 0\<close> of
  \<^verbatim>\<open>down\<close> cannot fire for a slice that fits in memory and is left out.
\<close>

function heap_up :: "'m Query list \<Rightarrow> nat \<Rightarrow> 'm Query list" where
  "heap_up h j =
     (let i = (j - 1) div 2 in
      if i = j \<or> \<not> queryHeap_Less h j i then h
      else heap_up (queryHeap_Swap h i j) i)"
  by pat_completeness auto
termination
  by (relation "measure snd") auto

declare heap_up.simps [simp del]

function heap_down :: "'m Query list \<Rightarrow> nat \<Rightarrow> nat \<Rightarrow> 'm Query list" where
  "heap_down h i n =
     (let j1 = 2 * i + 1 in
      if j1 \<ge> n then h
      else
        let j = (if j1 + 1 < n \<and> queryHeap_Less h (j1 + 1) j1 then j1 + 1 else j1) in
        if \<not> queryHeap_Less h j i then h
        else heap_down (queryHeap_Swap h i j) j n)"
  by pat_completeness auto
termination
  by (relation "measure (\<lambda>(h, i, n). n - i)") auto

declare heap_down.simps [simp del]

text \<open>\<^verbatim>\<open>heap.Init\<close>: \<^verbatim>\<open>for i := n/2 - 1; i >= 0; i-- { down(h, i, n) }\<close>.\<close>

definition heap_Init :: "'m Query list \<Rightarrow> 'm Query list" where
  "heap_Init h = (let n = queryHeap_Len h in foldl (\<lambda>h i. heap_down h i n) h (rev [0..<n div 2]))"

definition heap_Push :: "'m Query list \<Rightarrow> 'm Query \<Rightarrow> 'm Query list" where
  "heap_Push h x = (let h' = queryHeap_Push h x in heap_up h' (queryHeap_Len h' - 1))"

text \<open>\<^verbatim>\<open>heap.Pop\<close> on an empty heap panics with an index out of range: \<open>None\<close>.\<close>

definition heap_Pop :: "'m Query list \<Rightarrow> ('m Query \<times> 'm Query list) option" where
  "heap_Pop h =
     (if queryHeap_Len h = 0 then None
      else let n = queryHeap_Len h - 1 in
           Some (queryHeap_Pop (heap_down (queryHeap_Swap h 0 n) 0 n)))"

section \<open>CustomLeaderboard\<close>

text \<open>
  The last loop of \<^verbatim>\<open>CustomLeaderboard\<close>,
  \<^verbatim>\<open>for i := len(queries) - 1; i >= 0; i-- { ... queries[i] = ... }\<close>:
  \<open>fill_queries marshal (Suc i) h queries\<close> runs the body for index \<open>i\<close> and goes on with
  \<open>i - 1\<close>; it is started at \<open>len(queries)\<close>.
\<close>

fun fill_queries ::
  "('m \<Rightarrow> error + string) \<Rightarrow> nat \<Rightarrow> 'm Query list \<Rightarrow> service_Query option list
     \<Rightarrow> service_Query option list outcome" where
  "fill_queries marshal 0 h queries = Ok queries"
| "fill_queries marshal (Suc i) h queries =
     (case heap_Pop h of
        None \<Rightarrow> Panic
      | Some (graphQuery, h') \<Rightarrow>
          (case NodeToServiceNode marshal (Node graphQuery) of
             Inl err \<Rightarrow> Err err
           | Inr query \<Rightarrow>
               fill_queries marshal i h'
                 (queries[i := Some \<lparr>svc_Node = query, svc_Output = Output graphQuery\<rparr>])))"

text \<open>
  The fan-out runs one goroutine per named node, and the order in which the goroutines send
  their message is not fixed by the program. A schedule makes that choice explicit:
  \<^item> \<open>arrival\<close> lists the workers (by position among the named nodes) in the order in which
    they send their one message, to \<^verbatim>\<open>errChan\<close> after a failed evaluation and to
    \<^verbatim>\<open>queryChan\<close> after a successful one;
  \<^item> \<open>checked\<close> is the number of messages already sent when the main goroutine executes the
    non-blocking \<^verbatim>\<open>select\<close> on \<^verbatim>\<open>errChan\<close>.
  Both channels have room for one message per node, so no send blocks, and the \<^verbatim>\<open>range\<close>
  over \<^verbatim>\<open>queryChan\<close> ends only when every worker is done: the channels are closed after
  \<^verbatim>\<open>wg.Wait()\<close>. The counter \<^verbatim>\<open>atomicCounter\<close> is written and never read; it has no part
  in the model.
\<close>

record schedule =
  arrival :: "nat list"
  checked :: nat

text \<open>A schedule for \<open>m\<close> workers lets each worker send once, and checks after at most \<open>m\<close>
  messages.\<close>

definition schedule_ok :: "nat \<Rightarrow> schedule \<Rightarrow> bool" where
  "schedule_ok m sched = (sort (arrival sched) = [0..<m] \<and> checked sched \<le> m)"

text \<open>
  The semaphore of capacity \<open>K\<close> further restricts the schedules: worker \<open>i\<close> is started only
  after \<open>i + 1 - K\<close> workers have released their token, which each does after sending; and the
  \<^verbatim>\<open>select\<close> runs after the last worker is started. The schedules that satisfy both
  predicates are exactly those of the runs of the goroutines, as the last section on
  schedules shows.
\<close>

definition admits :: "nat \<Rightarrow> nat \<Rightarrow> schedule \<Rightarrow> bool" where
  "admits K m sched =
     (m \<le> checked sched + K \<and> list_all (\<lambda>j. arrival sched ! j < j + K) [0..<m])"

text \<open>The contents of the two channels: the errors and the queries among the messages, in the
  order sent.\<close>

fun errors_of :: "('n \<times> (error + 'b)) list \<Rightarrow> error list" where
  "errors_of [] = []"
| "errors_of ((node, Inl err) # rest) = err # errors_of rest"
| "errors_of ((node, Inr execute) # rest) = errors_of rest"

fun queries_of :: "('m graph_Node \<times> (error + bitmap)) list \<Rightarrow> 'm Query list" where
  "queries_of [] = []"
| "queries_of ((node, Inl err) # rest) = queries_of rest"
| "queries_of ((node, Inr execute) # rest) =
     \<lparr>Node = node, Output = ToArray execute\<rparr> # queries_of rest"

text \<open>
  From \<^verbatim>\<open>h := &queryHeap{}\<close> to the end of \<^verbatim>\<open>CustomLeaderboard\<close>.
  \<^item> \<^verbatim>\<open>make(chan struct{}, s.concurrency)\<close> panics for a negative size.
  \<^item> With capacity 0 the first \<^verbatim>\<open>semaphore <- struct{}{}\<close> has no receiver (the workers, which
    receive, are started after it): the call blocks before any worker is started.
  \<^item> Otherwise every named node gets its worker; the \<^verbatim>\<open>select\<close> returns the first error
    that is in \<^verbatim>\<open>errChan\<close> at that moment; if there is none, all queries sent are pushed on
    the heap in the order sent, and popped into the result from its last index down.
\<close>

definition leaderboard_fan_out ::
  "('m \<Rightarrow> error + string)
     \<Rightarrow> (string \<Rightarrow> ('m, 'c) Storage \<Rightarrow> string \<Rightarrow> 'm graph_Node list \<Rightarrow> 'c \<Rightarrow> bool \<Rightarrow> error + bitmap)
     \<Rightarrow> schedule \<Rightarrow> ('m, 'c) Service \<Rightarrow> ScriptRequest
     \<Rightarrow> 'm graph_Node list \<Rightarrow> 'c \<Rightarrow> 32 word list
     \<Rightarrow> call list \<times> CustomLeaderboardResponse Response outcome" where
  "leaderboard_fan_out marshal pe sched s req nodes caches cacheStack =
     (let h = heap_Init [];
          named = filter (\<lambda>node. Name node \<noteq> '''') nodes
      in
      if sint (concurrency s) < 0 then ([], Panic)
      else if sint (concurrency s) = 0 \<and> named \<noteq> [] then ([], Blocked)
      else
        let started = map (\<lambda>node. Call_ParseAndExecute (Name node)) named;
            results = map (\<lambda>node. pe (Script req) (storage s) (Name node) nodes caches
                                    (length cacheStack = 0)) named;
            sent = map (\<lambda>i. (named ! i, results ! i)) (arrival sched)
        in
        (case errors_of (take (checked sched) sent) of
           err # _ \<Rightarrow> (started, Err err)
         | [] \<Rightarrow>
             let h = foldl heap_Push h (queries_of sent) in
             (started,
              (case fill_queries marshal (queryHeap_Len h) h (replicate (queryHeap_Len h) None) of
                 Ok queries \<Rightarrow>
                   Ok (Header_Set (NewResponse (CustomLeaderboardResponse queries))
                         ''Service-Version'' ''v1'')
               | Err err \<Rightarrow> Err err
               | Blocked \<Rightarrow> Blocked
               | Panic \<Rightarrow> Panic))))"

text \<open>The context parameter is never read, as in the source.\<close>

definition Service_CustomLeaderboard ::
  "('m \<Rightarrow> error + string)
     \<Rightarrow> (string \<Rightarrow> ('m, 'c) Storage \<Rightarrow> string \<Rightarrow> 'm graph_Node list \<Rightarrow> 'c \<Rightarrow> bool \<Rightarrow> error + bitmap)
     \<Rightarrow> schedule \<Rightarrow> ('m, 'c) Service \<Rightarrow> Context \<Rightarrow> ScriptRequest
     \<Rightarrow> call list \<times> CustomLeaderboardResponse Response outcome" where
  "Service_CustomLeaderboard marshal pe sched s ctx req =
     (case ToBeCached (storage s) of
        Inl err \<Rightarrow> ([Call_ToBeCached], Err (Wrapf ''failed to get uncached nodes'' err))
      | Inr uncachedNodes \<Rightarrow>
     if length uncachedNodes \<noteq> 0
     then ([Call_ToBeCached], Err (Errorf ''cannot use sorted leaderboards without caching''))
     else
     (case GetAllKeys (storage s) of
        Inl err \<Rightarrow> ([Call_ToBeCached, Call_GetAllKeys], Err (Wrapf ''failed to Query keys'' err))
      | Inr keys \<Rightarrow>
     (case GetNodes (storage s) keys of
        Inl err \<Rightarrow> ([Call_ToBeCached, Call_GetAllKeys, Call_GetNodes keys],
                    Err (Wrapf ''failed to batch Query nodes from keys'' err))
      | Inr nodes \<Rightarrow>
     (case GetCaches (storage s) keys of
        Inl err \<Rightarrow> ([Call_ToBeCached, Call_GetAllKeys, Call_GetNodes keys, Call_GetCaches keys],
                    Err (Wrapf ''failed to batch Query caches from keys'' err))
      | Inr caches \<Rightarrow>
     (case ToBeCached (storage s) of
        Inl err \<Rightarrow> ([Call_ToBeCached, Call_GetAllKeys, Call_GetNodes keys, Call_GetCaches keys,
                     Call_ToBeCached], Err err)
      | Inr cacheStack \<Rightarrow>
          (case leaderboard_fan_out marshal pe sched s req nodes caches cacheStack of
             (calls, res) \<Rightarrow>
               ([Call_ToBeCached, Call_GetAllKeys, Call_GetNodes keys, Call_GetCaches keys,
                 Call_ToBeCached] @ calls, res)))))))"

section \<open>The evaluator's entry check\<close>

text \<open>
  Modelled from the spec: the error kind NotCached of the specification's error taxonomy
  ("operation requires empty dirty set but it is non-empty"), as raised by the evaluator. The
  evaluator is not among the sources, so the value of its error is not known; a name stands
  for it.
\<close>

definition NotCached :: error where
  "NotCached = External ''NotCached''"

text \<open>
  Modelled from the spec: \<^verbatim>\<open>graph.ParseAndExecute\<close> is not among the sources; the service only
  calls it and passes \<^verbatim>\<open>len(cacheStack) == 0\<close> as its last argument. The specification says of
  the evaluator that it requires the dirty set to be empty at evaluation time, checked once at
  entry, and otherwise fails with NotCached. \<open>evaluate\<close> stands for the rest of the evaluator
  (parsing and set algebra).
\<close>

definition ParseAndExecute ::
  "(string \<Rightarrow> ('m, 'c) Storage \<Rightarrow> string \<Rightarrow> 'm graph_Node list \<Rightarrow> 'c \<Rightarrow> error + bitmap)
     \<Rightarrow> string \<Rightarrow> ('m, 'c) Storage \<Rightarrow> string \<Rightarrow> 'm graph_Node list \<Rightarrow> 'c \<Rightarrow> bool
     \<Rightarrow> error + bitmap" where
  "ParseAndExecute evaluate script st defaultNodeName nodes caches isCached =
     (if \<not> isCached then Inl NotCached
      else evaluate script st defaultNodeName nodes caches)"

section \<open>Heap invariants\<close>

abbreviation card_of :: "'m Query \<Rightarrow> nat" where
  "card_of q \<equiv> length (Output q)"

text \<open>The first \<open>n\<close> slots form a min-heap on output length: no slot is smaller than its
  parent.\<close>

definition is_heap_upto :: "'m Query list \<Rightarrow> nat \<Rightarrow> bool" where
  "is_heap_upto h n = (\<forall>k<n. 0 < k \<longrightarrow> card_of (h ! ((k - 1) div 2)) \<le> card_of (h ! k))"

definition is_heap :: "'m Query list \<Rightarrow> bool" where
  "is_heap h = is_heap_upto h (length h)"

text \<open>The heap order holds everywhere except between \<open>j\<close> and its parent, and the children of
  \<open>j\<close> are not below the parent of \<open>j\<close>: what \<^verbatim>\<open>up\<close> repairs.\<close>

definition up_inv :: "'m Query list \<Rightarrow> nat \<Rightarrow> bool" where
  "up_inv h j =
     ((\<forall>k<length h. 0 < k \<longrightarrow> k \<noteq> j \<longrightarrow> card_of (h ! ((k - 1) div 2)) \<le> card_of (h ! k)) \<and>
      (\<forall>k<length h. 0 < k \<longrightarrow> (k - 1) div 2 = j \<longrightarrow> 0 < j \<longrightarrow>
           card_of (h ! ((j - 1) div 2)) \<le> card_of (h ! k)))"

text \<open>The heap order holds among the first \<open>n\<close> slots except between \<open>i\<close> and its children,
  which are not below the parent of \<open>i\<close>: what \<^verbatim>\<open>down\<close> repairs.\<close>

definition down_inv :: "'m Query list \<Rightarrow> nat \<Rightarrow> nat \<Rightarrow> bool" where
  "down_inv h i n =
     ((\<forall>k<n. 0 < k \<longrightarrow> (k - 1) div 2 \<noteq> i \<longrightarrow> card_of (h ! ((k - 1) div 2)) \<le> card_of (h ! k)) \<and>
      (\<forall>k<n. 0 < k \<longrightarrow> (k - 1) div 2 = i \<longrightarrow> 0 < i \<longrightarrow>
           card_of (h ! ((i - 1) div 2)) \<le> card_of (h ! k)))"

text \<open>The queries popped by \<open>n\<close> successive calls of \<^verbatim>\<open>heap.Pop\<close>, in the order popped.\<close>

fun pops :: "nat \<Rightarrow> 'm Query list \<Rightarrow> 'm Query list" where
  "pops 0 h = []"
| "pops (Suc n) h = (case heap_Pop h of None \<Rightarrow> [] | Some (x, h') \<Rightarrow> x # pops n h')"

text \<open>A wire query is the conversion of a heap query.\<close>

definition converts :: "('m \<Rightarrow> error + string) \<Rightarrow> 'm Query \<Rightarrow> service_Query \<Rightarrow> bool" where
  "converts marshal gq sq =
     (NodeToServiceNode marshal (Node gq) = Inr (svc_Node sq) \<and> svc_Output sq = Output gq)"

section \<open>The goroutines of the fan-out, step by step\<close>

text \<open>
  Where the schedules come from. The state of the fan-out records how many workers the loop
  has started, which workers have sent their message and in which order, how many have released
  their token, and whether the main goroutine has passed its \<^verbatim>\<open>select\<close> (and how many messages
  were sent when it did). One step is one of:
  \<^item> \<open>start\<close>: an iteration of the loop for a named node, \<^verbatim>\<open>semaphore <- struct{}{}\<close> and
    \<^verbatim>\<open>go func\<close>; the send on the semaphore needs fewer than \<open>K\<close> tokens outstanding;
  \<^item> \<open>send\<close>: a started worker sends its message, \<^verbatim>\<open>errChan <- err\<close> or
    \<^verbatim>\<open>queryChan <- &Query{...}\<close>;
  \<^item> \<open>release\<close>: a worker that has sent runs its deferred \<^verbatim>\<open><-semaphore\<close>;
  \<^item> \<open>check\<close>: after the loop, the main goroutine executes the \<^verbatim>\<open>select\<close> on \<^verbatim>\<open>errChan\<close>.
\<close>

datatype phase = Starting | Checked nat

record fan_state =
  fs_started :: nat
  fs_sent :: "nat list"
  fs_released :: nat
  fs_phase :: phase

definition fan_init :: fan_state where
  "fan_init = \<lparr>fs_started = 0, fs_sent = [], fs_released = 0, fs_phase = Starting\<rparr>"

inductive fan_step :: "nat \<Rightarrow> nat \<Rightarrow> fan_state \<Rightarrow> fan_state \<Rightarrow> bool" for K m where
  start: "fs_phase s = Starting \<Longrightarrow> fs_started s < m \<Longrightarrow> fs_started s < fs_released s + K \<Longrightarrow>
          fan_step K m s (s\<lparr>fs_started := Suc (fs_started s)\<rparr>)"
| send: "i < fs_started s \<Longrightarrow> i \<notin> set (fs_sent s) \<Longrightarrow>
         fan_step K m s (s\<lparr>fs_sent := fs_sent s @ [i]\<rparr>)"
| release: "fs_released s < length (fs_sent s) \<Longrightarrow>
            fan_step K m s (s\<lparr>fs_released := Suc (fs_released s)\<rparr>)"
| check: "fs_phase s = Starting \<Longrightarrow> fs_started s = m \<Longrightarrow>
          fan_step K m s (s\<lparr>fs_phase := Checked (length (fs_sent s))\<rparr>)"

text \<open>What holds in every state that the steps reach.\<close>

definition fan_inv :: "nat \<Rightarrow> nat \<Rightarrow> fan_state \<Rightarrow> bool" where
  "fan_inv K m s =
     (distinct (fs_sent s) \<and> set (fs_sent s) \<subseteq> {0..<fs_started s} \<and> fs_started s \<le> m \<and>
      fs_released s \<le> length (fs_sent s) \<and> fs_started s \<le> fs_released s + K \<and>
      (\<forall>j < length (fs_sent s). fs_sent s ! j < j + K) \<and>
      (case fs_phase s of
         Starting \<Rightarrow> True
       | Checked c \<Rightarrow> c \<le> length (fs_sent s) \<and> fs_started s = m \<and> m \<le> c + K))"

section \<open>Concrete graphs\<close>

text \<open>
  The diamond \<open>A \<rightarrow> B\<close>, \<open>A \<rightarrow> C\<close>, \<open>B \<rightarrow> D\<close>, \<open>C \<rightarrow> D\<close> with identifiers 1 to 4, cached, in a
  storage whose reads succeed; the metadata is already a JSON text, so \<open>Inr\<close> serves as the
  encoder.
\<close>

definition node_A :: "string graph_Node" where
  "node_A = \<lparr>ID = 1, Name = ''A'', Type = ''library'', Metadata = ''{}'',
             Children = {2, 3}, Parents = {}\<rparr>"

definition node_B :: "string graph_Node" where
  "node_B = \<lparr>ID = 2, Name = ''B'', Type = ''library'', Metadata = ''{}'',
             Children = {4}, Parents = {1}\<rparr>"

definition node_C :: "string graph_Node" where
  "node_C = \<lparr>ID = 3, Name = ''C'', Type = ''library'', Metadata = ''{}'',
             Children = {4}, Parents = {1}\<rparr>"

definition node_D :: "string graph_Node" where
  "node_D = \<lparr>ID = 4, Name = ''D'', Type = ''library'', Metadata = ''{}'',
             Children = {}, Parents = {2, 3}\<rparr>"

definition diamond_storage :: "(string, unit) Storage" where
  "diamond_storage =
     \<lparr>ToBeCached = Inr [],
      GetAllKeys = Inr [1, 2, 3, 4],
      GetNodes = (\<lambda>ids. Inr [node_A, node_B, node_C, node_D]),
      GetCaches = (\<lambda>ids. Inr ()),
      GetNode = (\<lambda>i. if i = 1 then Inr node_A else Inl (External ''NotFound'')),
      NameToID = (\<lambda>n. if n = ''A'' then Inr 1 else Inl (External ''NotFound'')),
      GetNodesByGlob = (\<lambda>p. Inr [node_A, node_B, node_C, node_D])\<rparr>"

text \<open>The evaluation of \<^verbatim>\<open>dependencies * <focus>\<close> on the diamond: the transitive children of
  the focus node.\<close>

definition dependencies_of_focus ::
  "string \<Rightarrow> (string, unit) Storage \<Rightarrow> string \<Rightarrow> string graph_Node list \<Rightarrow> unit \<Rightarrow> bool
     \<Rightarrow> error + bitmap" where
  "dependencies_of_focus script st name nodes caches isCached =
     (if name = ''A'' then Inr {2, 3, 4}
      else if name = ''B'' \<or> name = ''C'' then Inr {4}
      else if name = ''D'' then Inr {}
      else Inl (External ''UnknownNode''))"

text \<open>An evaluator that fails for the focus \<open>D\<close> and agrees with the previous one elsewhere.\<close>

definition fails_on_D ::
  "string \<Rightarrow> (string, unit) Storage \<Rightarrow> string \<Rightarrow> string graph_Node list \<Rightarrow> unit \<Rightarrow> bool
     \<Rightarrow> error + bitmap" where
  "fails_on_D script st name nodes caches isCached =
     (if name = ''D'' then Inl (External ''StorageError'')
      else dependencies_of_focus script st name nodes caches isCached)"

text \<open>An evaluator that rejects the script, as for a script that does not parse: it fails for
  every focus.\<close>

definition rejects_script ::
  "string \<Rightarrow> (string, unit) Storage \<Rightarrow> string \<Rightarrow> string graph_Node list \<Rightarrow> unit \<Rightarrow> bool
     \<Rightarrow> error + bitmap" where
  "rejects_script script st name nodes caches isCached = Inl (External ''ParseError'')"

text \<open>A storage that holds \<open>A\<close>, a node without a name, and \<open>D\<close>.\<close>

definition node_anonymous :: "string graph_Node" where
  "node_anonymous = \<lparr>ID = 5, Name = '''', Type = ''library'', Metadata = ''{}'',
                     Children = {}, Parents = {}\<rparr>"

definition anonymous_storage :: "(string, unit) Storage" where
  "anonymous_storage =
     diamond_storage\<lparr>GetAllKeys := Inr [1, 5, 4],
                     GetNodes := (\<lambda>ids. Inr [node_A, node_anonymous, node_D])\<rparr>"

text \<open>The diamond after an edge was added and before the caches were rebuilt: node 3 is dirty.
  In \<open>uncached_storage\<close> the cache of the dirty node is missing as well, and \<^verbatim>\<open>GetCaches\<close>
  reports it.\<close>

definition dirty_storage :: "(string, unit) Storage" where
  "dirty_storage = diamond_storage\<lparr>ToBeCached := Inr [3]\<rparr>"

definition uncached_storage :: "(string, unit) Storage" where
  "uncached_storage =
     diamond_storage\<lparr>ToBeCached := Inr [3], GetCaches := (\<lambda>ids. Inl (External ''NotFound''))\<rparr>"

text \<open>A storage without nodes.\<close>

definition empty_storage :: "(string, unit) Storage" where
  "empty_storage =
     diamond_storage\<lparr>GetAllKeys := Inr [], GetNodes := (\<lambda>ids. Inr []),
                     GetNodesByGlob := (\<lambda>p. Inr [])\<rparr>"

text \<open>The schedule in which the workers send in the order started and the main goroutine
  checks \<^verbatim>\<open>errChan\<close> while the last of \<open>m\<close> workers has not sent yet: with capacity 1 every
  other worker has sent by then.\<close>

definition in_order :: "nat \<Rightarrow> schedule" where
  "in_order m = \<lparr>arrival = [0..<m], checked = m - 1\<rparr>"


text \<open>The schedule in which the main goroutine checks \<^verbatim>\<open>errChan\<close> before any of the \<open>m\<close> workers
  has sent; the semaphore allows it when its capacity is at least \<open>m\<close>.\<close>

definition check_first :: "nat \<Rightarrow> schedule" where
  "check_first m = \<lparr>arrival = [0..<m], checked = 0\<rparr>"

text \<open>Four workers of which the third sends before the second, checked when all have sent.\<close>

definition C_before_B :: schedule where
  "C_before_B = \<lparr>arrival = [0, 2, 1, 3], checked = 4\<rparr>"

text \<open>An evaluator whose every answer is the empty set.\<close>

definition evaluates_to_empty ::
  "string \<Rightarrow> (string, unit) Storage \<Rightarrow> string \<Rightarrow> string graph_Node list \<Rightarrow> unit
     \<Rightarrow> error + bitmap" where
  "evaluates_to_empty script st name nodes caches = Inr {}"

text \<open>The request of the leaderboard scenario, and the wire form of each node of the diamond
  with its output.\<close>

definition focus_request :: ScriptRequest where
  "focus_request = \<lparr>Script = ''dependencies * focus''\<rparr>"

definition entry_A :: service_Query where
  "entry_A = \<lparr>svc_Node = \<lparr>Id = 1, svc_Name = ''A'', svc_Type = ''library'', svc_Metadata = ''{}'',
                            Dependencies = [2, 3], Dependents = []\<rparr>,
              svc_Output = [2, 3, 4]\<rparr>"

definition entry_B :: service_Query where
  "entry_B = \<lparr>svc_Node = \<lparr>Id = 2, svc_Name = ''B'', svc_Type = ''library'', svc_Metadata = ''{}'',
                            Dependencies = [4], Dependents = [1]\<rparr>,
              svc_Output = [4]\<rparr>"

definition entry_C :: service_Query where
  "entry_C = \<lparr>svc_Node = \<lparr>Id = 3, svc_Name = ''C'', svc_Type = ''library'', svc_Metadata = ''{}'',
                            Dependencies = [4], Dependents = [1]\<rparr>,
              svc_Output = [4]\<rparr>"

definition entry_D :: service_Query where
  "entry_D = \<lparr>svc_Node = \<lparr>Id = 4, svc_Name = ''D'', svc_Type = ''library'', svc_Metadata = ''{}'',
                            Dependencies = [], Dependents = [2, 3]\<rparr>,
              svc_Output = []\<rparr>"

section \<open>The heap operations keep the heap order\<close>

lemma queryHeap_Len_length [simp]: "queryHeap_Len h = length h"
  by (simp add: queryHeap_Len_def)

lemma up_invD1:
  "up_inv h j \<Longrightarrow> k < length h \<Longrightarrow> 0 < k \<Longrightarrow> k \<noteq> j \<Longrightarrow>
   card_of (h ! ((k - 1) div 2)) \<le> card_of (h ! k)"
  by (simp add: up_inv_def)

lemma up_invD2:
  "up_inv h j \<Longrightarrow> k < length h \<Longrightarrow> 0 < k \<Longrightarrow> (k - 1) div 2 = j \<Longrightarrow> 0 < j \<Longrightarrow>
   card_of (h ! ((j - 1) div 2)) \<le> card_of (h ! k)"
  by (simp add: up_inv_def)

lemma down_invD1:
  "down_inv h i n \<Longrightarrow> k < n \<Longrightarrow> 0 < k \<Longrightarrow> (k - 1) div 2 \<noteq> i \<Longrightarrow>
   card_of (h ! ((k - 1) div 2)) \<le> card_of (h ! k)"
  by (simp add: down_inv_def)

lemma down_invD2:
  "down_inv h i n \<Longrightarrow> k < n \<Longrightarrow> 0 < k \<Longrightarrow> (k - 1) div 2 = i \<Longrightarrow> 0 < i \<Longrightarrow>
   card_of (h ! ((i - 1) div 2)) \<le> card_of (h ! k)"
  by (simp add: down_inv_def)

lemma length_Swap [simp]: "length (queryHeap_Swap h i j) = length h"
  by (simp add: queryHeap_Swap_def)

lemma nth_Swap:
  "i < length h \<Longrightarrow> j < length h \<Longrightarrow> k < length h \<Longrightarrow>
   queryHeap_Swap h i j ! k = (if k = j then h ! i else if k = i then h ! j else h ! k)"
  by (simp add: queryHeap_Swap_def nth_list_update)

lemma mset_Swap: "i < length h \<Longrightarrow> j < length h \<Longrightarrow> mset (queryHeap_Swap h i j) = mset h"
  by (simp add: queryHeap_Swap_def mset_swap)

lemma length_heap_up [simp]: "length (heap_up h j) = length h"
proof (induction h j rule: heap_up.induct)
  case (1 h j)
  show ?case
    using "1.IH" by (subst heap_up.simps) (simp add: Let_def)
qed

lemma mset_heap_up: "j < length h \<Longrightarrow> mset (heap_up h j) = mset h"
proof (induction h j rule: heap_up.induct)
  case (1 h j)
  have lt: "(j - 1) div 2 < length h" using "1.prems" by simp
  show ?case
    using "1.IH" "1.prems" lt
    by (subst heap_up.simps) (simp add: Let_def mset_Swap)
qed

lemma heap_up_heap: "j < length h \<Longrightarrow> up_inv h j \<Longrightarrow> is_heap_upto (heap_up h j) (length h)"
proof (induction h j rule: heap_up.induct)
  case (1 h j)
  let ?i = "(j - 1) div 2"
  show ?case
  proof (cases "?i = j \<or> \<not> queryHeap_Less h j ?i")
    case True
    have "is_heap_upto h (length h)"
      unfolding is_heap_upto_def
    proof (intro allI impI)
      fix k assume k: "k < length h" "0 < k"
      show "card_of (h ! ((k - 1) div 2)) \<le> card_of (h ! k)"
      proof (cases "k = j")
        case False
        then show ?thesis using "1.prems"(2) k by (simp add: up_inv_def)
      next
        case kj: True
        then have "?i \<noteq> j" using k by simp
        then have "\<not> queryHeap_Less h j ?i" using True by simp
        then show ?thesis using kj by (simp add: queryHeap_Less_def)
      qed
    qed
    then show ?thesis using True by (subst heap_up.simps) (simp add: Let_def)
  next
    case False
    then have ij: "?i \<noteq> j" and less: "card_of (h ! j) < card_of (h ! ?i)"
      by (simp_all add: queryHeap_Less_def)
    have ilt: "?i < j" using ij by simp
    have ilen: "?i < length h" using ilt "1.prems"(1) by simp
    let ?h = "queryHeap_Swap h ?i j"
    have inv: "up_inv ?h ?i"
      unfolding up_inv_def
    proof (intro conjI allI impI)
      fix k assume k: "k < length ?h" "0 < k" "k \<noteq> ?i"
      then have klen: "k < length h" by simp
      have plen: "(k - 1) div 2 < length h" using klen by simp
      show "card_of (?h ! ((k - 1) div 2)) \<le> card_of (?h ! k)"
      proof (cases "k = j")
        case True
        then show ?thesis using less ilen "1.prems"(1) ij
          by (simp add: nth_Swap)
      next
        case kj: False
        have a: "card_of (h ! ((k - 1) div 2)) \<le> card_of (h ! k)"
          using "1.prems"(2) klen k(2) kj by (simp add: up_inv_def)
        show ?thesis
        proof (cases "(k - 1) div 2 = j")
          case True
          then have "0 < j" using k(2) ilt by simp
          then have "card_of (h ! ?i) \<le> card_of (h ! k)"
            using "1.prems"(2) klen k(2) True by (simp add: up_inv_def)
          then show ?thesis using True kj k(3) klen ilen "1.prems"(1) ij
            by (simp add: nth_Swap)
        next
          case pj: False
          show ?thesis
          proof (cases "(k - 1) div 2 = ?i")
            case True
            then show ?thesis using a less kj k(3) klen ilen "1.prems"(1) ij pj
              by (simp add: nth_Swap)
          next
            case False
            then show ?thesis using a kj k(3) klen ilen "1.prems"(1) pj plen
              by (simp add: nth_Swap)
          qed
        qed
      qed
    next
      fix k assume k: "k < length ?h" "0 < k" "(k - 1) div 2 = ?i" "0 < ?i"
      then have klen: "k < length h" by simp
      have ki: "k \<noteq> ?i" using k(2,3) by presburger
      have pi_lt: "(?i - 1) div 2 < ?i" using k(4) by simp
      have pi: "card_of (h ! ((?i - 1) div 2)) \<le> card_of (h ! ?i)"
        using "1.prems"(2) ilen k(4) ij by (simp add: up_inv_def)
      have pp: "?h ! ((?i - 1) div 2) = h ! ((?i - 1) div 2)"
        using pi_lt ilt ilen "1.prems"(1) by (simp add: nth_Swap)
      show "card_of (?h ! ((?i - 1) div 2)) \<le> card_of (?h ! k)"
      proof (cases "k = j")
        case True
        then show ?thesis using pp pi ilen "1.prems"(1) by (simp add: nth_Swap)
      next
        case False
        have "card_of (h ! ((k - 1) div 2)) \<le> card_of (h ! k)"
          using up_invD1[OF "1.prems"(2) klen k(2) False] .
        then have hk: "card_of (h ! ?i) \<le> card_of (h ! k)" unfolding k(3) .
        have "?h ! k = h ! k" using False ki klen ilen "1.prems"(1) by (simp add: nth_Swap)
        then show ?thesis using pp pi hk by simp
      qed
    qed
    have "is_heap_upto (heap_up ?h ?i) (length ?h)"
      using "1.IH"[OF refl] False ilen inv by simp
    then show ?thesis using False by (subst heap_up.simps) (simp add: Let_def)
  qed
qed




lemma length_heap_down [simp]: "length (heap_down h i n) = length h"
proof (induction h i n rule: heap_down.induct)
  case (1 h i n)
  show ?case
    using "1.IH" by (subst heap_down.simps) (simp add: Let_def)
qed

lemma mset_heap_down: "n \<le> length h \<Longrightarrow> i < n \<Longrightarrow> mset (heap_down h i n) = mset h"
proof (induction h i n rule: heap_down.induct)
  case (1 h i n)
  show ?case
    using "1.IH" "1.prems"
    by (subst heap_down.simps) (auto simp add: Let_def mset_Swap)
qed

lemma nth_heap_down_above:
  "n \<le> length h \<Longrightarrow> i < n \<Longrightarrow> n \<le> k \<Longrightarrow> k < length h \<Longrightarrow> heap_down h i n ! k = h ! k"
proof (induction h i n rule: heap_down.induct)
  case (1 h i n)
  show ?case
    using "1.IH" "1.prems"
    by (subst heap_down.simps) (auto simp add: Let_def nth_Swap)
qed

lemma heap_down_heap:
  "n \<le> length h \<Longrightarrow> i < n \<Longrightarrow> down_inv h i n \<Longrightarrow> is_heap_upto (heap_down h i n) n"
proof (induction h i n rule: heap_down.induct)
  case (1 h i n)
  let ?j1 = "2 * i + 1"
  define j where "j = (if ?j1 + 1 < n \<and> queryHeap_Less h (?j1 + 1) ?j1 then ?j1 + 1 else ?j1)"
  note inv = "1.prems"(3)
  have eq: "heap_down h i n =
      (if n \<le> ?j1 then h
       else if \<not> queryHeap_Less h j i then h
       else heap_down (queryHeap_Swap h i j) j n)"
    unfolding j_def by (subst heap_down.simps) (simp only: Let_def)
  show ?case
  proof (cases "n \<le> ?j1")
    case True
    have "is_heap_upto h n"
      unfolding is_heap_upto_def
    proof (intro allI impI)
      fix k assume k: "k < n" "0 < k"
      then have "(k - 1) div 2 \<noteq> i" using True by presburger
      then show "card_of (h ! ((k - 1) div 2)) \<le> card_of (h ! k)"
        using down_invD1[OF inv k] by simp
    qed
    then show ?thesis by (simp only: eq True if_True)
  next
    case j1: False
    have jn: "j < n" using j1 by (simp add: j_def)
    have pj: "(j - 1) div 2 = i" by (simp add: j_def)
    have jpos: "0 < j" by (simp add: j_def)
    have ji: "i < j" by (simp add: j_def)
    have jmin: "card_of (h ! j) \<le> card_of (h ! k)"
      if k: "k < n" "0 < k" "(k - 1) div 2 = i" for k
    proof -
      from k have "k = ?j1 \<or> k = ?j1 + 1" by presburger
      then show ?thesis
        using k(1) by (auto simp add: queryHeap_Less_def j_def)
    qed
    show ?thesis
    proof (cases "queryHeap_Less h j i")
      case False
      then have le: "card_of (h ! i) \<le> card_of (h ! j)" by (simp add: queryHeap_Less_def)
      have "is_heap_upto h n"
        unfolding is_heap_upto_def
      proof (intro allI impI)
        fix k assume k: "k < n" "0 < k"
        show "card_of (h ! ((k - 1) div 2)) \<le> card_of (h ! k)"
        proof (cases "(k - 1) div 2 = i")
          case True
          have "card_of (h ! i) \<le> card_of (h ! k)"
            using le jmin[OF k True] by linarith
          then show ?thesis unfolding True .
        next
          case False
          then show ?thesis using down_invD1[OF inv k] by simp
        qed
      qed
      then show ?thesis using j1 False by (simp only: eq if_False if_True not_False_eq_True)
    next
      case True
      then have less: "card_of (h ! j) < card_of (h ! i)" by (simp add: queryHeap_Less_def)
      let ?h = "queryHeap_Swap h i j"
      have ilen: "i < length h" and jlen: "j < length h"
        using "1.prems"(1,2) jn by linarith+
      have hi: "?h ! i = h ! j" using ilen jlen ji by (simp add: nth_Swap)
      have hj: "?h ! j = h ! i" using ilen jlen by (simp add: nth_Swap)
      have hk: "?h ! k = h ! k" if "k < n" "k \<noteq> i" "k \<noteq> j" for k
        using that ilen jlen "1.prems"(1) by (simp add: nth_Swap)
      have inv': "down_inv ?h j n"
        unfolding down_inv_def
      proof (intro conjI allI impI)
        fix k assume k: "k < n" "0 < k" "(k - 1) div 2 \<noteq> j"
        have pn: "(k - 1) div 2 < n" using k(1) by simp
        show "card_of (?h ! ((k - 1) div 2)) \<le> card_of (?h ! k)"
        proof (cases "(k - 1) div 2 = i")
          case True
          then have ki: "k \<noteq> i" using k(2) by presburger
          have "card_of (h ! j) \<le> card_of (?h ! k)"
          proof (cases "k = j")
            case True
            then show ?thesis using hj less by simp
          next
            case False
            then show ?thesis using hk[OF k(1) ki False] jmin[OF k(1,2) True] by simp
          qed
          then show ?thesis unfolding True hi .
        next
          case False
          have kj: "k \<noteq> j" using False pj by metis
          have pp: "?h ! ((k - 1) div 2) = h ! ((k - 1) div 2)"
            using hk[OF pn False k(3)] .
          show ?thesis
          proof (cases "k = i")
            case True
            then have ipos: "0 < i" using k(2) by simp
            have "card_of (h ! ((i - 1) div 2)) \<le> card_of (h ! j)"
              using down_invD2[OF inv jn jpos pj ipos] .
            then show ?thesis using pp hi True by simp
          next
            case ki: False
            show ?thesis using pp hk[OF k(1) ki kj] down_invD1[OF inv k(1,2) False] by simp
          qed
        qed
      next
        fix k assume k: "k < n" "0 < k" "(k - 1) div 2 = j" "0 < j"
        have ki: "k \<noteq> i" using k(2,3) ji by presburger
        have kj: "k \<noteq> j" using k(2,3) by presburger
        have ne: "(k - 1) div 2 \<noteq> i" using k(3) ji by simp
        have "card_of (h ! j) \<le> card_of (h ! k)"
          using down_invD1[OF inv k(1,2) ne] unfolding k(3) .
        then show "card_of (?h ! ((j - 1) div 2)) \<le> card_of (?h ! k)"
          unfolding pj hi using hk[OF k(1) ki kj] by simp
      qed
      have "is_heap_upto (heap_down ?h j n) n"
        using "1.IH"[OF refl j1 j_def] True jn inv' "1.prems"(1) by simp
      then show ?thesis using j1 True by (simp only: eq if_False if_True not_True_eq_False)
    qed
  qed
qed


lemma is_heap_Nil: "is_heap []"
  by (simp add: is_heap_def is_heap_upto_def)

lemma heap_root_min:
  "is_heap_upto h n \<Longrightarrow> k < n \<Longrightarrow> card_of (h ! 0) \<le> card_of (h ! k)"
proof (induction k rule: less_induct)
  case (less k)
  show ?case
  proof (cases "k = 0")
    case True
    then show ?thesis by simp
  next
    case False
    then have p: "(k - 1) div 2 < k" by simp
    have "card_of (h ! ((k - 1) div 2)) \<le> card_of (h ! k)"
      using less.prems False by (simp add: is_heap_upto_def)
    moreover have "card_of (h ! 0) \<le> card_of (h ! ((k - 1) div 2))"
      using less.IH[OF p less.prems(1)] p less.prems(2) by simp
    ultimately show ?thesis by linarith
  qed
qed

lemma length_heap_Push: "length (heap_Push h x) = Suc (length h)"
  by (simp add: heap_Push_def queryHeap_Push_def Let_def)

lemma mset_heap_Push: "mset (heap_Push h x) = add_mset x (mset h)"
  by (simp add: heap_Push_def queryHeap_Push_def Let_def mset_heap_up)

lemma is_heap_heap_Push: "is_heap h \<Longrightarrow> is_heap (heap_Push h x)"
proof -
  assume h: "is_heap h"
  let ?h = "h @ [x]"
  have "up_inv ?h (length h)"
    unfolding up_inv_def
  proof (intro conjI allI impI)
    fix k assume k: "k < length ?h" "0 < k" "k \<noteq> length h"
    then have kl: "k < length h" by simp
    then have "(k - 1) div 2 < length h" by simp
    then show "card_of (?h ! ((k - 1) div 2)) \<le> card_of (?h ! k)"
      using h kl k(2) by (simp add: is_heap_def is_heap_upto_def nth_append)
  next
    fix k assume k: "k < length ?h" "0 < k" "(k - 1) div 2 = length h"
    then have False by simp
    then show "card_of (?h ! ((length h - 1) div 2)) \<le> card_of (?h ! k)" ..
  qed
  then have "is_heap_upto (heap_up ?h (length h)) (length ?h)"
    by (intro heap_up_heap) simp_all
  then show ?thesis
    by (simp add: heap_Push_def queryHeap_Push_def Let_def is_heap_def)
qed

lemma heap_Pop_Nil: "heap_Pop [] = None"
  by (simp add: heap_Pop_def)

lemma heap_Pop_Some:
  assumes "is_heap h" and "h \<noteq> []"
  shows "\<exists>x h'. heap_Pop h = Some (x, h') \<and> is_heap h' \<and> mset h = add_mset x (mset h')
           \<and> length h' = length h - 1 \<and> (\<forall>y \<in> set h'. card_of x \<le> card_of y)"
proof -
  define n where "n = length h - 1"
  have len: "length h = Suc n" using assms(2) by (cases h) (simp_all add: n_def)
  let ?h1 = "queryHeap_Swap h 0 n"
  define h2 where "h2 = heap_down ?h1 0 n"
  have pop: "heap_Pop h = Some (h2 ! n, take n h2)"
    using assms(2) by (simp add: heap_Pop_def queryHeap_Pop_def Let_def n_def h2_def)
  have l2: "length h2 = Suc n" by (simp add: h2_def len)
  have ms1: "mset ?h1 = mset h" by (rule mset_Swap) (simp_all add: len)
  show ?thesis
  proof (cases "n = 0")
    case True
    have h2h: "h2 = h"
      using len True by (subst h2_def, subst heap_down.simps) (simp add: queryHeap_Swap_def)
    obtain a where ha: "h = [a]" using len True by (cases h) simp_all
    show ?thesis using pop h2h ha True by (simp add: is_heap_Nil)
  next
    case False
    then have npos: "0 < n" by simp
    have inv: "down_inv ?h1 0 n"
      unfolding down_inv_def
    proof (intro conjI allI impI)
      fix k assume k: "k < n" "0 < k" "(k - 1) div 2 \<noteq> 0"
      have p: "(k - 1) div 2 < n" using k(1) by simp
      have "card_of (h ! ((k - 1) div 2)) \<le> card_of (h ! k)"
        using assms(1) k len by (simp add: is_heap_def is_heap_upto_def)
      then show "card_of (?h1 ! ((k - 1) div 2)) \<le> card_of (?h1 ! k)"
        using k p len by (simp add: nth_Swap)
    next
      fix k assume "(0::nat) < 0"
      then show "card_of (?h1 ! ((0 - 1) div 2)) \<le> card_of (?h1 ! k)" by simp
    qed
    have hp: "is_heap_upto h2 n"
      unfolding h2_def by (rule heap_down_heap) (simp_all add: len npos inv)
    have ms2: "mset h2 = mset h"
      unfolding h2_def using ms1 npos by (simp add: mset_heap_down len)
    have last: "h2 ! n = h ! 0"
      unfolding h2_def using npos len
      by (simp add: nth_heap_down_above nth_Swap)
    have hp': "is_heap (take n h2)"
      using hp l2 by (simp add: is_heap_def is_heap_upto_def)
    have "h2 = take n h2 @ [h2 ! n]"
      using l2 by (simp add: take_Suc_conv_app_nth[symmetric])
    then have "mset h2 = mset (take n h2 @ [h2 ! n])"
      by (rule arg_cong)
    then have "mset h2 = add_mset (h2 ! n) (mset (take n h2))"
      by simp
    then have ms: "mset h = add_mset (h2 ! n) (mset (take n h2))" using ms2 by simp
    have min: "\<forall>y \<in> set (take n h2). card_of (h2 ! n) \<le> card_of y"
    proof
      fix y assume "y \<in> set (take n h2)"
      then have "y \<in># add_mset (h2 ! n) (mset (take n h2))" by simp
      then have "y \<in># mset h" by (simp only: ms)
      then have "y \<in> set h" by simp
      then obtain k where k: "k < length h" "h ! k = y" by (auto simp: in_set_conv_nth)
      have "card_of (h ! 0) \<le> card_of (h ! k)"
        using heap_root_min[of h "length h" k] assms(1) k(1) by (simp add: is_heap_def)
      then show "card_of (h2 ! n) \<le> card_of y" using last k(2) by simp
    qed
    show ?thesis using pop hp' ms min l2 len by simp
  qed
qed


section \<open>Pushing every query and popping them all sorts by output length\<close>

lemma heap_Init_Nil: "heap_Init [] = []"
  by (simp add: heap_Init_def)

lemma foldl_heap_Push:
  "is_heap h \<Longrightarrow>
   is_heap (foldl heap_Push h qs) \<and> mset (foldl heap_Push h qs) = mset h + mset qs"
proof (induction qs arbitrary: h)
  case Nil
  then show ?case by simp
next
  case (Cons q qs)
  have "is_heap (heap_Push h q)" using Cons.prems by (rule is_heap_heap_Push)
  from Cons.IH[OF this] show ?case by (simp add: mset_heap_Push)
qed

lemma pops_sorted:
  "is_heap h \<Longrightarrow> length h = n \<Longrightarrow>
   sorted (map card_of (pops n h)) \<and> mset (pops n h) = mset h"
proof (induction n arbitrary: h)
  case 0
  then show ?case by simp
next
  case (Suc n)
  then have ne: "h \<noteq> []" by auto
  from heap_Pop_Some[OF Suc.prems(1) ne] obtain x h' where
    pop: "heap_Pop h = Some (x, h')" and hp: "is_heap h'" and
    ms: "mset h = add_mset x (mset h')" and len: "length h' = length h - 1" and
    mn: "\<forall>y \<in> set h'. card_of x \<le> card_of y"
    by blast
  have l': "length h' = n" using len Suc.prems(2) by simp
  from Suc.IH[OF hp l'] have srt: "sorted (map card_of (pops n h'))"
    and ms': "mset (pops n h') = mset h'" by simp_all
  have "set (pops n h') = set h'" using ms' by (rule mset_eq_setD)
  then have "\<forall>y \<in> set (pops n h'). card_of x \<le> card_of y" using mn by simp
  then show ?case using pop srt ms ms' by simp
qed

lemma length_pops:
  assumes "is_heap h" and "length h = n"
  shows "length (pops n h) = n"
proof -
  have "mset (pops n h) = mset h" using pops_sorted[OF assms] by simp
  then have "size (mset (pops n h)) = size (mset h)" by simp
  then show ?thesis using assms(2) by simp
qed

lemma fill_queries_Ok:
  assumes "is_heap h" and "length h = i" and "i \<le> length queries"
    and "\<forall>q \<in> set h. \<exists>d. marshal (Metadata (Node q)) = Inr d"
  shows "\<exists>sqs. fill_queries marshal i h queries = Ok (map Some sqs @ drop i queries) \<and>
           list_all2 (converts marshal) (rev (pops i h)) sqs"
  using assms
proof (induction i arbitrary: h queries)
  case 0
  then show ?case by simp
next
  case (Suc i)
  then have ne: "h \<noteq> []" by auto
  from heap_Pop_Some[OF Suc.prems(1) ne] obtain x h' where
    pop: "heap_Pop h = Some (x, h')" and hp: "is_heap h'" and
    ms: "mset h = add_mset x (mset h')" and len: "length h' = length h - 1"
    by blast
  have l': "length h' = i" using len Suc.prems(2) by simp
  have "set_mset (mset h) = set_mset (add_mset x (mset h'))" using ms by simp
  then have sub: "set h = insert x (set h')" by simp
  then obtain d where d: "marshal (Metadata (Node x)) = Inr d"
    using Suc.prems(4) by auto
  define sn where "sn = \<lparr>Id = ID (Node x), svc_Name = Name (Node x), svc_Type = Type (Node x),
     svc_Metadata = d, Dependencies = ToArray (Children (Node x)),
     Dependents = ToArray (Parents (Node x))\<rparr>"
  define sq where "sq = \<lparr>svc_Node = sn, svc_Output = Output x\<rparr>"
  have conv: "NodeToServiceNode marshal (Node x) = Inr sn"
    by (simp add: NodeToServiceNode_def d sn_def)
  have cx: "converts marshal x sq" by (simp add: converts_def conv sq_def)
  let ?queries = "queries[i := Some sq]"
  have step: "fill_queries marshal (Suc i) h queries = fill_queries marshal i h' ?queries"
    by (simp add: pop conv sq_def)
  have all': "\<forall>q \<in> set h'. \<exists>d. marshal (Metadata (Node q)) = Inr d"
    using Suc.prems(4) sub by auto
  have il: "i \<le> length ?queries" using Suc.prems(3) by simp
  from Suc.IH[OF hp l' il all'] obtain sqs where
    r: "fill_queries marshal i h' ?queries = Ok (map Some sqs @ drop i ?queries)" and
    l2: "list_all2 (converts marshal) (rev (pops i h')) sqs"
    by blast
  have "drop i ?queries = ?queries ! i # drop (Suc i) ?queries"
    using Suc.prems(3) by (intro Cons_nth_drop_Suc[symmetric]) simp
  then have dr: "drop i ?queries = Some sq # drop (Suc i) queries"
    using Suc.prems(3) by (simp add: drop_update_cancel)
  have "fill_queries marshal (Suc i) h queries = Ok (map Some (sqs @ [sq]) @ drop (Suc i) queries)"
    unfolding step r dr by simp
  moreover have "list_all2 (converts marshal) (rev (pops (Suc i) h)) (sqs @ [sq])"
    using l2 cx by (simp add: pop list_all2_appendI)
  ultimately show ?case by blast
qed

lemma queries_of_filter:
  "queries_of xs =
     map (\<lambda>p. \<lparr>Node = fst p, Output = ToArray (projr (snd p))\<rparr>) (filter (\<lambda>p. \<not> isl (snd p)) xs)"
  by (induction xs rule: queries_of.induct) simp_all

lemma mset_queries_of:
  assumes "mset xs = mset ys"
  shows "mset (queries_of xs) = mset (queries_of ys)"
proof -
  let ?f = "\<lambda>p. \<lparr>Node = fst p, Output = ToArray (projr (snd p))\<rparr>"
  let ?P = "\<lambda>p. \<not> isl (snd p)"
  have "mset (queries_of zs) = image_mset ?f (filter_mset ?P (mset zs))" for zs :: "('a graph_Node \<times> (error + bitmap)) list"
    by (simp add: queries_of_filter)
  then show ?thesis using assms by simp
qed

lemma errors_of_all_Inr: "\<forall>p \<in> set xs. \<not> isl (snd p) \<Longrightarrow> errors_of xs = []"
  by (induction xs rule: errors_of.induct) simp_all

lemma Node_queries_of: "q \<in> set (queries_of xs) \<Longrightarrow> Node q \<in> fst ` set xs"
  by (induction xs rule: queries_of.induct) auto

lemma length_queries_of_all_Inr:
  "\<forall>p \<in> set xs. \<not> isl (snd p) \<Longrightarrow> length (queries_of xs) = length xs"
  by (induction xs rule: queries_of.induct) simp_all


section \<open>The fan-out when no error is seen at the check\<close>

lemma sorted_wrt_desc_conv:
  "sorted_wrt (\<lambda>a b. f b \<le> f a) xs = sorted (rev (map f xs))"
proof -
  have "sorted (rev (map f xs)) = sorted (map f (rev xs))" by (simp add: rev_map)
  also have "\<dots> = sorted_wrt (\<lambda>a b. f a \<le> f b) (rev xs)" by (simp only: sorted_map)
  also have "\<dots> = sorted_wrt (\<lambda>a b. f b \<le> f a) xs" by (simp only: sorted_wrt_rev)
  finally show ?thesis by simp
qed

lemma converts_card:
  "list_all2 (converts marshal) gqs sqs \<Longrightarrow>
   map (\<lambda>q. length (svc_Output q)) sqs = map card_of gqs"
  by (induction rule: list_all2_induct) (simp_all add: converts_def)

lemma fan_out_all_sent:
  fixes nodes :: "'m graph_Node list"
  defines "named \<equiv> filter (\<lambda>node. Name node \<noteq> '''') nodes"
  assumes K: "0 < sint (concurrency s)"
    and sent: "sent = map (\<lambda>i. (named ! i,
                    map (\<lambda>node. pe (Script req) (storage s) (Name node) nodes caches
                                   (length cacheStack = 0)) named ! i)) (arrival sched)"
    and noerr: "errors_of (take (checked sched) sent) = []"
    and conv: "\<forall>node \<in> set named. \<exists>d. marshal (Metadata node) = Inr d"
    and fstsent: "fst ` set sent \<subseteq> set named"
  shows "\<exists>sqs gqs.
           leaderboard_fan_out marshal pe sched s req nodes caches cacheStack =
             (map (\<lambda>node. Call_ParseAndExecute (Name node)) named,
              Ok \<lparr>Msg = CustomLeaderboardResponse (map Some sqs),
                  Header = [(''Service-Version'', ''v1'')]\<rparr>) \<and>
           sorted_wrt (\<lambda>a b. length (svc_Output b) \<le> length (svc_Output a)) sqs \<and>
           list_all2 (converts marshal) gqs sqs \<and>
           mset gqs = mset (queries_of sent)"
proof -
  define h where "h = foldl heap_Push [] (queries_of sent)"
  have hp: "is_heap h" and ms: "mset h = mset (queries_of sent)"
    using foldl_heap_Push[OF is_heap_Nil, of "queries_of sent"] by (simp_all add: h_def)
  have allc: "\<forall>q \<in> set h. \<exists>d. marshal (Metadata (Node q)) = Inr d"
  proof
    fix q assume "q \<in> set h"
    then have "q \<in> set (queries_of sent)" using mset_eq_setD[OF ms] by simp
    then have "Node q \<in> set named" using Node_queries_of fstsent by blast
    then show "\<exists>d. marshal (Metadata (Node q)) = Inr d" using conv by blast
  qed
  from fill_queries_Ok[OF hp refl _ allc, of "replicate (length h) None"]
  obtain sqs where
    f: "fill_queries marshal (length h) h (replicate (length h) None) = Ok (map Some sqs)" and
    l2: "list_all2 (converts marshal) (rev (pops (length h) h)) sqs"
    by auto
  have "sorted (map card_of (pops (length h) h))"
    using pops_sorted[OF hp refl] by simp
  then have "sorted (rev (map card_of (rev (pops (length h) h))))"
    by (simp add: rev_map)
  then have srt: "sorted_wrt (\<lambda>a b. length (svc_Output b) \<le> length (svc_Output a)) sqs"
    by (simp only: sorted_wrt_desc_conv converts_card[OF l2])
  have msg: "mset (rev (pops (length h) h)) = mset (queries_of sent)"
    using pops_sorted[OF hp refl] ms by simp
  have npos: "\<not> sint (concurrency s) < 0" "\<not> sint (concurrency s) = 0" using K by simp_all
  have "leaderboard_fan_out marshal pe sched s req nodes caches cacheStack =
             (map (\<lambda>node. Call_ParseAndExecute (Name node)) named,
              Ok \<lparr>Msg = CustomLeaderboardResponse (map Some sqs),
                  Header = [(''Service-Version'', ''v1'')]\<rparr>)"
    unfolding leaderboard_fan_out_def Let_def heap_Init_Nil queryHeap_Len_length
      named_def[symmetric] sent[symmetric] h_def[symmetric]
    using npos noerr f
    by (simp add: NewResponse_def Header_Set_def)
  then show ?thesis using srt l2 msg by blast
qed


section \<open>Schedules\<close>

lemma schedule_ok_0: "schedule_ok 0 sched \<Longrightarrow> arrival sched = []"
proof -
  assume "schedule_ok 0 sched"
  then have "sort (arrival sched) = []" by (simp add: schedule_ok_def)
  then have "length (sort (arrival sched)) = 0" by simp
  then show ?thesis by simp
qed

lemma schedule_ok_mset: "schedule_ok m sched \<Longrightarrow> mset (arrival sched) = mset [0..<m]"
proof -
  assume "schedule_ok m sched"
  then have "sort (arrival sched) = [0..<m]" by (simp add: schedule_ok_def)
  then have "mset (sort (arrival sched)) = mset [0..<m]" by simp
  then show ?thesis by simp
qed

lemma map_nth_pairs:
  "map (\<lambda>i. (xs ! i, map g xs ! i)) [0..<length xs] = map (\<lambda>x. (x, g x)) xs"
  by (rule nth_equalityI) simp_all

lemma sent_mset:
  assumes "schedule_ok (length xs) sched"
  shows "mset (map (\<lambda>i. (xs ! i, map g xs ! i)) (arrival sched)) = mset (map (\<lambda>x. (x, g x)) xs)"
proof -
  have "mset (map (\<lambda>i. (xs ! i, map g xs ! i)) (arrival sched))
        = image_mset (\<lambda>i. (xs ! i, map g xs ! i)) (mset (arrival sched))" by simp
  also have "\<dots> = image_mset (\<lambda>i. (xs ! i, map g xs ! i)) (mset [0..<length xs])"
    by (simp only: schedule_ok_mset[OF assms])
  also have "\<dots> = mset (map (\<lambda>i. (xs ! i, map g xs ! i)) [0..<length xs])" by simp
  also have "\<dots> = mset (map (\<lambda>x. (x, g x)) xs)" by (simp only: map_nth_pairs)
  finally show ?thesis .
qed

lemma queries_of_all_Inr:
  "\<forall>x \<in> set xs. \<not> isl (g x) \<Longrightarrow>
   queries_of (map (\<lambda>x. (x, g x)) xs) = map (\<lambda>x. \<lparr>Node = x, Output = ToArray (projr (g x))\<rparr>) xs"
  by (induction xs) (auto simp add: queries_of_filter)


section \<open>Evaluations are started for the named nodes\<close>

text \<open>With a budget of at least 1 the leaderboard starts one evaluation per named node, in the
  order of the nodes, and none for a node whose name is empty, whatever the workers then do.\<close>

lemma CustomLeaderboard_starts_named_nodes:
  assumes "ToBeCached (storage s) = Inr []"
    and "GetAllKeys (storage s) = Inr keys"
    and "GetNodes (storage s) keys = Inr nodes"
    and "GetCaches (storage s) keys = Inr caches"
    and "0 < sint (concurrency s)"
  shows "fst (Service_CustomLeaderboard marshal pe sched s ctx req) =
           [Call_ToBeCached, Call_GetAllKeys, Call_GetNodes keys, Call_GetCaches keys,
            Call_ToBeCached] @
           map (\<lambda>node. Call_ParseAndExecute (Name node)) (filter (\<lambda>node. Name node \<noteq> '''') nodes)"
  using assms
  by (simp add: Service_CustomLeaderboard_def leaderboard_fan_out_def Let_def
      split: list.split prod.split)



section \<open>Schedules are the runs of the goroutines\<close>

lemma fan_inv_init: "fan_inv K m fan_init"
  by (simp add: fan_inv_def fan_init_def)

lemma fan_inv_step:
  assumes "fan_step K m s s'" and "fan_inv K m s"
  shows "fan_inv K m s'"
  using assms
proof (induction rule: fan_step.induct)
  case (start s)
  then show ?case by (auto simp add: fan_inv_def)
next
  case (send i s)
  have "\<forall>j < length (fs_sent s @ [i]). (fs_sent s @ [i]) ! j < j + K"
  proof (intro allI impI)
    fix j assume j: "j < length (fs_sent s @ [i])"
    show "(fs_sent s @ [i]) ! j < j + K"
    proof (cases "j < length (fs_sent s)")
      case True
      then show ?thesis using send.prems by (simp add: fan_inv_def nth_append)
    next
      case False
      then have "j = length (fs_sent s)" using j by simp
      then show ?thesis using send.hyps send.prems by (simp add: fan_inv_def nth_append)
    qed
  qed
  then show ?case using send by (auto simp add: fan_inv_def split: phase.splits)
next
  case (release s)
  then show ?case by (auto simp add: fan_inv_def split: phase.splits)
next
  case (check s)
  then show ?case by (auto simp add: fan_inv_def)
qed

lemma fan_inv_reachable:
  "(fan_step K m)\<^sup>*\<^sup>* fan_init s \<Longrightarrow> fan_inv K m s"
  by (induction rule: rtranclp_induct) (auto intro: fan_inv_init fan_inv_step)

lemma sort_permutation_upt:
  assumes "distinct xs" and "set xs \<subseteq> {0..<m}" and "length xs = m"
  shows "sort xs = [0..<m]"
proof -
  have "card (set xs) = m" using assms(1,3) by (simp add: distinct_card)
  then have "set xs = {0..<m}" using assms(2) by (intro card_subset_eq) simp_all
  moreover have "sort xs = sorted_list_of_set (set xs)"
    using assms(1) by (simp add: sorted_list_of_set_sort_remdups distinct_remdups_id)
  ultimately show ?thesis by simp
qed

text \<open>Every run of the goroutines that has passed the \<^verbatim>\<open>select\<close> and in which all \<open>m\<close> workers
  have sent is described by a schedule that is well formed and admitted by the semaphore.\<close>

theorem fan_runs_give_schedules:
  assumes "(fan_step K m)\<^sup>*\<^sup>* fan_init s"
    and "fs_phase s = Checked c" and "length (fs_sent s) = m"
  shows "schedule_ok m \<lparr>arrival = fs_sent s, checked = c\<rparr> \<and>
         admits K m \<lparr>arrival = fs_sent s, checked = c\<rparr>"
proof -
  have inv: "fan_inv K m s" using assms(1) by (rule fan_inv_reachable)
  have "sort (fs_sent s) = [0..<m]"
    using inv assms(2,3) by (intro sort_permutation_upt) (auto simp add: fan_inv_def)
  then show ?thesis
    using inv assms(2,3) by (auto simp add: fan_inv_def schedule_ok_def admits_def list_all_iff)
qed


lemma fan_starts:
  assumes "fs_phase s = Starting" and "fs_started s \<le> b" and "b \<le> m" and "b \<le> fs_released s + K"
  shows "(fan_step K m)\<^sup>*\<^sup>* s (s\<lparr>fs_started := b\<rparr>)"
  using assms(2,3,4)
proof (induction b rule: dec_induct)
  case base
  then show ?case by simp
next
  case (step n)
  let ?t = "s\<lparr>fs_started := n\<rparr>"
  have "(fan_step K m)\<^sup>*\<^sup>* s ?t" using step by simp
  moreover have "fan_step K m ?t (?t\<lparr>fs_started := Suc (fs_started ?t)\<rparr>)"
    using step.prems assms(1) by (intro fan_step.start) simp_all
  ultimately show ?case by simp
qed

lemma schedule_ok_perm:
  assumes "schedule_ok m sched"
  shows "distinct (arrival sched)" and "set (arrival sched) = {0..<m}"
    and "length (arrival sched) = m" and "checked sched \<le> m"
proof -
  have ms: "mset (arrival sched) = mset [0..<m]" using assms by (rule schedule_ok_mset)
  have "distinct [0..<m]" by simp
  then show "distinct (arrival sched)" using ms by (metis mset_eq_imp_distinct_iff)
  have "set_mset (mset (arrival sched)) = set_mset (mset [0..<m])" using ms by simp
  then show "set (arrival sched) = {0..<m}" by simp
  have "size (mset (arrival sched)) = size (mset [0..<m])" using ms by simp
  then show "length (arrival sched) = m" by simp
  show "checked sched \<le> m" using assms by (simp add: schedule_ok_def)
qed

lemma fan_prefix_run:
  assumes ok: "schedule_ok m sched" and ad: "admits K m sched" and "j \<le> m"
  shows "(fan_step K m)\<^sup>*\<^sup>* fan_init
           \<lparr>fs_started = min m (j + K), fs_sent = take j (arrival sched), fs_released = j,
            fs_phase = Starting\<rparr>"
  using assms(3)
proof (induction j)
  case 0
  have "(fan_step K m)\<^sup>*\<^sup>* fan_init (fan_init\<lparr>fs_started := min m K\<rparr>)"
    by (rule fan_starts) (simp_all add: fan_init_def)
  then show ?case by (simp add: fan_init_def)
next
  case (Suc j)
  let ?arr = "arrival sched"
  let ?s0 = "\<lparr>fs_started = min m (j + K), fs_sent = take j ?arr, fs_released = j,
              fs_phase = Starting\<rparr>"
  have jm: "j < m" using Suc.prems by simp
  have len: "length ?arr = m" and dist: "distinct ?arr" and st: "set ?arr = {0..<m}"
    using schedule_ok_perm[OF ok] by simp_all
  have r0: "(fan_step K m)\<^sup>*\<^sup>* fan_init ?s0" using Suc.IH jm by simp
  have "?arr ! j \<in> set ?arr" using jm len by simp
  then have im: "?arr ! j < m" using st by simp
  have ik: "?arr ! j < j + K" using ad jm by (simp add: admits_def list_all_iff)
  have notin: "?arr ! j \<notin> set (take j ?arr)"
  proof
    assume "?arr ! j \<in> set (take j ?arr)"
    then obtain k where k: "k < j" "take j ?arr ! k = ?arr ! j"
      using jm len by (auto simp add: in_set_conv_nth)
    then have "?arr ! k = ?arr ! j" by simp
    then have "k = j" using dist k(1) jm len by (simp add: nth_eq_iff_index_eq)
    then show False using k(1) by simp
  qed
  let ?s1 = "?s0\<lparr>fs_sent := fs_sent ?s0 @ [?arr ! j]\<rparr>"
  have s1: "fan_step K m ?s0 ?s1"
    using im ik notin by (intro fan_step.send) simp_all
  let ?s2 = "?s1\<lparr>fs_released := Suc (fs_released ?s1)\<rparr>"
  have s2: "fan_step K m ?s1 ?s2"
    using jm len by (intro fan_step.release) simp
  have s3: "(fan_step K m)\<^sup>*\<^sup>* ?s2 (?s2\<lparr>fs_started := min m (Suc j + K)\<rparr>)"
    by (rule fan_starts) simp_all
  have tk: "take j ?arr @ [?arr ! j] = take (Suc j) ?arr"
    using jm len by (simp add: take_Suc_conv_app_nth)
  have "(fan_step K m)\<^sup>*\<^sup>* fan_init (?s2\<lparr>fs_started := min m (Suc j + K)\<rparr>)"
    using r0 s1 s2 s3 by (meson rtranclp.rtrancl_into_rtrancl rtranclp_trans)
  then show ?case by (simp add: tk)
qed

lemma fan_suffix_run:
  assumes ok: "schedule_ok m sched" and "c \<le> j" and "j \<le> m"
  shows "(fan_step K m)\<^sup>*\<^sup>*
           \<lparr>fs_started = m, fs_sent = take c (arrival sched), fs_released = c,
            fs_phase = Checked c\<rparr>
           \<lparr>fs_started = m, fs_sent = take j (arrival sched), fs_released = c,
            fs_phase = Checked c\<rparr>"
  using assms(2,3)
proof (induction j rule: dec_induct)
  case base
  then show ?case by simp
next
  case (step j)
  let ?arr = "arrival sched"
  let ?s0 = "\<lparr>fs_started = m, fs_sent = take j ?arr, fs_released = c, fs_phase = Checked c\<rparr>"
  have jm: "j < m" using step.prems by simp
  have len: "length ?arr = m" and dist: "distinct ?arr" and st: "set ?arr = {0..<m}"
    using schedule_ok_perm[OF ok] by simp_all
  have "?arr ! j \<in> set ?arr" using jm len by simp
  then have im: "?arr ! j < m" using st by simp
  have notin: "?arr ! j \<notin> set (take j ?arr)"
  proof
    assume "?arr ! j \<in> set (take j ?arr)"
    then obtain k where k: "k < j" "take j ?arr ! k = ?arr ! j"
      using jm len by (auto simp add: in_set_conv_nth)
    then have "?arr ! k = ?arr ! j" by simp
    then have "k = j" using dist k(1) jm len by (simp add: nth_eq_iff_index_eq)
    then show False using k(1) by simp
  qed
  have "fan_step K m ?s0 (?s0\<lparr>fs_sent := fs_sent ?s0 @ [?arr ! j]\<rparr>)"
    using im notin by (intro fan_step.send) simp_all
  moreover have "take j ?arr @ [?arr ! j] = take (Suc j) ?arr"
    using jm len by (simp add: take_Suc_conv_app_nth)
  ultimately have "fan_step K m ?s0
      \<lparr>fs_started = m, fs_sent = take (Suc j) ?arr, fs_released = c, fs_phase = Checked c\<rparr>"
    by simp
  then show ?case using step.IH step.prems by simp
qed

text \<open>Conversely every well-formed schedule that the semaphore admits is the schedule of a
  run: the workers send in the order of the schedule, each releasing its token at once, and the
  loop starts workers as soon as the semaphore has room.\<close>

theorem fan_schedules_have_runs:
  assumes ok: "schedule_ok m sched" and ad: "admits K m sched"
  shows "\<exists>s. (fan_step K m)\<^sup>*\<^sup>* fan_init s \<and> fs_phase s = Checked (checked sched) \<and>
             fs_sent s = arrival sched"
proof -
  let ?arr = "arrival sched"
  let ?c = "checked sched"
  have len: "length ?arr = m" and cm: "?c \<le> m" using schedule_ok_perm[OF ok] by simp_all
  have mk: "m \<le> ?c + K" using ad by (simp add: admits_def)
  let ?s0 = "\<lparr>fs_started = min m (?c + K), fs_sent = take ?c ?arr, fs_released = ?c,
              fs_phase = Starting\<rparr>"
  have r0: "(fan_step K m)\<^sup>*\<^sup>* fan_init ?s0" using ok ad cm by (rule fan_prefix_run)
  have "fan_step K m ?s0 (?s0\<lparr>fs_phase := Checked (length (fs_sent ?s0))\<rparr>)"
    using mk by (intro fan_step.check) simp_all
  then have r1: "fan_step K m ?s0
      \<lparr>fs_started = m, fs_sent = take ?c ?arr, fs_released = ?c, fs_phase = Checked ?c\<rparr>"
    using mk cm len by (simp add: min_absorb1)
  have r2: "(fan_step K m)\<^sup>*\<^sup>*
      \<lparr>fs_started = m, fs_sent = take ?c ?arr, fs_released = ?c, fs_phase = Checked ?c\<rparr>
      \<lparr>fs_started = m, fs_sent = take m ?arr, fs_released = ?c, fs_phase = Checked ?c\<rparr>"
    using ok cm by (rule fan_suffix_run) simp
  have fin: "(fan_step K m)\<^sup>*\<^sup>* fan_init
      \<lparr>fs_started = m, fs_sent = ?arr, fs_released = ?c, fs_phase = Checked ?c\<rparr>"
    using r0 r1 r2 len by (simp add: rtranclp.rtrancl_into_rtrancl[THEN rtranclp_trans])
  show ?thesis
    by (rule exI[of _ "\<lparr>fs_started = m, fs_sent = ?arr, fs_released = ?c,
                        fs_phase = Checked ?c\<rparr>"]) (simp add: fin)
qed


section \<open>Health check and request validation\<close>

text \<open>
  Claim C8. For every request and every storage state, \<^verbatim>\<open>Check\<close> returns the status string
  "ok" and never an error: its result is the response with status \<open>''ok''\<close> whatever the
  service, context and request are.
\<close>

theorem Check_returns_ok:
  "Service_Check s ctx req = Inr \<lparr>Msg = HealthCheckResponse ''ok'', Header = []\<rparr>"
  by (simp add: Service_Check_def NewResponse_def)

text \<open>
  Claim C10. For the nil request, \<^verbatim>\<open>Query\<close> returns the error "request is nil" and makes no
  call to the storage or to the evaluator: the list of calls is empty.
\<close>

theorem Query_nil_request:
  "Service_Query marshal pe s ctx None = ([], Inl (Errorf ''request is nil''))"
  by (simp add: Service_Query_def)

section \<open>The dirty-set check of the leaderboard\<close>

text \<open>
  Claim C3. When the dirty set read by \<^verbatim>\<open>ToBeCached\<close> is not empty, \<^verbatim>\<open>CustomLeaderboard\<close>
  fails with the error "cannot use sorted leaderboards without caching" (its NotCached error)
  and that read is the only call it has made: no keys, nodes or caches are loaded and no
  evaluation is started. When the dirty set is empty it goes on to load the keys.
\<close>

theorem CustomLeaderboard_requires_clean_cache:
  "(\<forall>dirty. ToBeCached (storage s) = Inr dirty \<and> dirty \<noteq> [] \<longrightarrow>
      Service_CustomLeaderboard marshal pe sched s ctx req =
        ([Call_ToBeCached], Err (Errorf ''cannot use sorted leaderboards without caching''))) \<and>
   (ToBeCached (storage s) = Inr [] \<longrightarrow>
      take 2 (fst (Service_CustomLeaderboard marshal pe sched s ctx req)) =
        [Call_ToBeCached, Call_GetAllKeys])"
  by (simp add: Service_CustomLeaderboard_def split: sum.split prod.split)

theorem CustomLeaderboard_requires_clean_cache_witness:
  "ToBeCached (storage (NewService dirty_storage 1)) = Inr [3] \<and> [3 :: 32 word] \<noteq> [] \<and>
   Service_CustomLeaderboard Inr dependencies_of_focus (in_order 4) (NewService dirty_storage 1)
       (Context None) \<lparr>Script = ''dependencies * focus''\<rparr> =
     ([Call_ToBeCached], Err (Errorf ''cannot use sorted leaderboards without caching'')) \<and>
   ToBeCached (storage (NewService diamond_storage 1)) = Inr [] \<and>
   take 2 (fst (Service_CustomLeaderboard Inr dependencies_of_focus (in_order 4)
       (NewService diamond_storage 1) (Context None) \<lparr>Script = ''dependencies * focus''\<rparr>)) =
     [Call_ToBeCached, Call_GetAllKeys]"
  using CustomLeaderboard_requires_clean_cache
          [of "NewService dirty_storage 1" Inr dependencies_of_focus "in_order 4" "Context None"
              "\<lparr>Script = ''dependencies * focus''\<rparr>"]
        CustomLeaderboard_requires_clean_cache
          [of "NewService diamond_storage 1" Inr dependencies_of_focus "in_order 4" "Context None"
              "\<lparr>Script = ''dependencies * focus''\<rparr>"]
  by (simp add: NewService_def dirty_storage_def diamond_storage_def)

section \<open>Adjacency on the wire\<close>

text \<open>
  Claim C9. A node that is converted for the RPC surface carries, as \<^verbatim>\<open>Dependencies\<close>, the
  ascending array of its direct \<^verbatim>\<open>Children\<close> bitset and, as \<^verbatim>\<open>Dependents\<close>, the ascending array
  of its direct \<^verbatim>\<open>Parents\<close> bitset. The conversion reads the node only, so the transitive
  caches cannot enter.
\<close>

theorem NodeToServiceNode_direct_adjacency:
  assumes "NodeToServiceNode marshal node = Inr sn"
  shows "Dependencies sn = ToArray (Children node) \<and> Dependents sn = ToArray (Parents node) \<and>
         sorted (Dependencies sn) \<and> distinct (Dependencies sn) \<and>
         set (Dependencies sn) = Children node \<and>
         sorted (Dependents sn) \<and> distinct (Dependents sn) \<and>
         set (Dependents sn) = Parents node"
  using assms by (auto simp add: NodeToServiceNode_def ToArray_def split: sum.splits)

theorem NodeToServiceNode_direct_adjacency_witness:
  "NodeToServiceNode Inr node_B =
     Inr \<lparr>Id = 2, svc_Name = ''B'', svc_Type = ''library'', svc_Metadata = ''{}'',
          Dependencies = [4], Dependents = [1]\<rparr> \<and>
   [4] = ToArray (Children node_B) \<and> [1] = ToArray (Parents node_B) \<and>
   set [4] = Children node_B \<and> set [1] = Parents node_B"
  using NodeToServiceNode_direct_adjacency
          [of Inr node_B "\<lparr>Id = 2, svc_Name = ''B'', svc_Type = ''library'', svc_Metadata = ''{}'',
                           Dependencies = [4], Dependents = [1]\<rparr>"]
  by (simp add: NodeToServiceNode_def node_B_def ToArray_def)


section \<open>Every operation converts with NodeToServiceNode\<close>

lemma convert_nodes_all2:
  "convert_nodes marshal nodes = Inr sns \<Longrightarrow>
   list_all2 (\<lambda>node sn. NodeToServiceNode marshal node = Inr sn) nodes sns"
  by (induction nodes arbitrary: sns) (auto split: sum.splits)

lemma Service_GetNode_converted:
  "Service_GetNode marshal s ctx i = Inr res \<Longrightarrow>
   \<exists>node sn. GetNode (storage s) i = Inr node \<and> NodeToServiceNode marshal node = Inr sn \<and>
             res = NewResponse (GetNodeResponse sn)"
  by (auto simp add: Service_GetNode_def split: sum.splits)

lemma Service_GetNodeByName_converted:
  "Service_GetNodeByName marshal s ctx name = Inr res \<Longrightarrow>
   \<exists>i node sn. NameToID (storage s) name = Inr i \<and> GetNode (storage s) i = Inr node \<and>
               NodeToServiceNode marshal node = Inr sn \<and>
               res = NewResponse (GetNodeByNameResponse sn)"
  by (auto simp add: Service_GetNodeByName_def split: sum.splits)

lemma Service_GetNodesByGlob_converted:
  "Service_GetNodesByGlob marshal s ctx pattern = Inr res \<Longrightarrow>
   \<exists>nodes sns. GetNodesByGlob (storage s) pattern = Inr nodes \<and>
               list_all2 (\<lambda>node sn. NodeToServiceNode marshal node = Inr sn) nodes sns \<and>
               res = NewResponse (GetNodesByGlobResponse sns)"
  by (auto simp add: Service_GetNodesByGlob_def split: sum.splits dest: convert_nodes_all2)

lemma Service_AddNode_converted:
  "Service_AddNode marshal addNode s ctx n = Inr res \<Longrightarrow>
   \<exists>node sn. addNode (storage s) (svc_Type n) (svc_Metadata n) (svc_Name n) = Inr node \<and>
             NodeToServiceNode marshal node = Inr sn \<and>
             res = NewResponse (AddNodeResponse sn)"
  by (auto simp add: Service_AddNode_def split: sum.splits)

lemma Service_AllKeys_converted:
  "Service_AllKeys marshal s ctx = Inr res \<Longrightarrow>
   \<exists>keys nodes sns. GetAllKeys (storage s) = Inr keys \<and> GetNodes (storage s) keys = Inr nodes \<and>
               list_all2 (\<lambda>node sn. NodeToServiceNode marshal node = Inr sn) nodes sns \<and>
               res = NewResponse (AllKeysResponse sns)"
  by (auto simp add: Service_AllKeys_def split: sum.splits dest: convert_nodes_all2)

section \<open>The order of the leaderboard\<close>

text \<open>
  Claim C1, as the code has it. When the dirty set is empty, keys, nodes and caches load, the
  budget is at least 1, every per-node evaluation succeeds and the metadata of every named node
  can be encoded, \<^verbatim>\<open>CustomLeaderboard\<close> returns, for every schedule of the workers, a result:
  it starts one evaluation per named node, and the result holds the conversions of the (node,
  output array) pairs of exactly the named nodes, sorted by output cardinality, largest first.
  Nothing is said of the order among pairs of equal cardinality: \<^verbatim>\<open>Less\<close> compares no names,
  and that order follows the order in which the workers send.
\<close>

theorem CustomLeaderboard_sorted_by_cardinality:
  fixes s :: "('m, 'c) Service"
  assumes dirty: "ToBeCached (storage s) = Inr []"
    and keys: "GetAllKeys (storage s) = Inr keys"
    and nodes: "GetNodes (storage s) keys = Inr nodes"
    and caches: "GetCaches (storage s) keys = Inr caches"
    and budget: "0 < sint (concurrency s)"
    and sched: "schedule_ok (length (filter (\<lambda>node. Name node \<noteq> '''') nodes)) sched"
    and evals: "\<forall>node \<in> set (filter (\<lambda>node. Name node \<noteq> '''') nodes).
                  \<not> isl (pe (Script req) (storage s) (Name node) nodes caches True)"
    and encodes: "\<forall>node \<in> set (filter (\<lambda>node. Name node \<noteq> '''') nodes).
                  \<not> isl (marshal (Metadata node))"
  shows "\<exists>sqs gqs.
           Service_CustomLeaderboard marshal pe sched s ctx req =
             ([Call_ToBeCached, Call_GetAllKeys, Call_GetNodes keys, Call_GetCaches keys,
               Call_ToBeCached] @
              map (\<lambda>node. Call_ParseAndExecute (Name node))
                  (filter (\<lambda>node. Name node \<noteq> '''') nodes),
              Ok \<lparr>Msg = CustomLeaderboardResponse (map Some sqs),
                  Header = [(''Service-Version'', ''v1'')]\<rparr>) \<and>
           sorted_wrt (\<lambda>a b. length (svc_Output b) \<le> length (svc_Output a)) sqs \<and>
           list_all2 (converts marshal) gqs sqs \<and>
           mset gqs =
             mset (map (\<lambda>node. \<lparr>Node = node,
                                 Output = ToArray (projr (pe (Script req) (storage s) (Name node)
                                                            nodes caches True))\<rparr>)
                       (filter (\<lambda>node. Name node \<noteq> '''') nodes))"
proof -
  define named where "named = filter (\<lambda>node. Name node \<noteq> '''') nodes"
  define g where "g = (\<lambda>node :: 'm graph_Node. pe (Script req) (storage s) (Name node) nodes caches
                                (length ([] :: 32 word list) = 0))"
  define sent where "sent = map (\<lambda>i. (named ! i, map g named ! i)) (arrival sched)"
  have gT: "g = (\<lambda>node. pe (Script req) (storage s) (Name node) nodes caches True)"
    by (simp add: g_def)
  have ms: "mset sent = mset (map (\<lambda>x. (x, g x)) named)"
    unfolding sent_def using sched[folded named_def] by (rule sent_mset)
  have st: "set sent = set (map (\<lambda>x. (x, g x)) named)" using ms by (rule mset_eq_setD)
  have allr: "\<forall>p \<in> set sent. \<not> isl (snd p)"
    using evals[folded named_def] by (auto simp add: st gT)
  have "\<forall>p \<in> set (take (checked sched) sent). \<not> isl (snd p)"
    using allr by (auto dest: in_set_takeD)
  then have noerr: "errors_of (take (checked sched) sent) = []" by (rule errors_of_all_Inr)
  have conv: "\<forall>node \<in> set named. \<exists>d. marshal (Metadata node) = Inr d"
  proof
    fix node assume "node \<in> set named"
    then have "\<not> isl (marshal (Metadata node))" using encodes[folded named_def] by blast
    then show "\<exists>d. marshal (Metadata node) = Inr d" by (cases "marshal (Metadata node)") simp_all
  qed
  have fstsent: "fst ` set sent \<subseteq> set named" by (auto simp add: st)
  from fan_out_all_sent[where s = s and pe = pe and req = req and nodes = nodes
      and caches = caches and cacheStack = "[]" and sched = sched and sent = sent
      and marshal = marshal,
      OF budget sent_def[unfolded g_def named_def]
      noerr conv[unfolded named_def] fstsent[unfolded named_def]]
  obtain sqs gqs where
    fo: "leaderboard_fan_out marshal pe sched s req nodes caches [] =
           (map (\<lambda>node. Call_ParseAndExecute (Name node)) named,
            Ok \<lparr>Msg = CustomLeaderboardResponse (map Some sqs),
                Header = [(''Service-Version'', ''v1'')]\<rparr>)" and
    srt: "sorted_wrt (\<lambda>a b. length (svc_Output b) \<le> length (svc_Output a)) sqs" and
    l2: "list_all2 (converts marshal) gqs sqs" and
    mg: "mset gqs = mset (queries_of sent)"
    unfolding named_def[symmetric] g_def[symmetric] sent_def[symmetric] by blast
  have "mset (queries_of sent) = mset (queries_of (map (\<lambda>x. (x, g x)) named))"
    using ms by (rule mset_queries_of)
  also have "queries_of (map (\<lambda>x. (x, g x)) named) =
      map (\<lambda>x. \<lparr>Node = x, Output = ToArray (projr (g x))\<rparr>) named"
    using evals[folded named_def] by (intro queries_of_all_Inr) (simp add: gT)
  finally have mg': "mset gqs = mset (map (\<lambda>x. \<lparr>Node = x, Output = ToArray (projr (g x))\<rparr>) named)"
    using mg by simp
  have "Service_CustomLeaderboard marshal pe sched s ctx req =
             ([Call_ToBeCached, Call_GetAllKeys, Call_GetNodes keys, Call_GetCaches keys,
               Call_ToBeCached] @ map (\<lambda>node. Call_ParseAndExecute (Name node)) named,
              Ok \<lparr>Msg = CustomLeaderboardResponse (map Some sqs),
                  Header = [(''Service-Version'', ''v1'')]\<rparr>)"
    by (simp add: Service_CustomLeaderboard_def dirty keys nodes caches fo)
  then show ?thesis
    using srt l2 mg' unfolding named_def gT by blast
qed


theorem CustomLeaderboard_sorted_by_cardinality_witness:
  "\<exists>sqs gqs.
     Service_CustomLeaderboard Inr dependencies_of_focus (in_order 4)
         (NewService diamond_storage 1) (Context None) focus_request =
       ([Call_ToBeCached, Call_GetAllKeys, Call_GetNodes [1, 2, 3, 4],
         Call_GetCaches [1, 2, 3, 4], Call_ToBeCached] @
        map (\<lambda>node. Call_ParseAndExecute (Name node))
            (filter (\<lambda>node. Name node \<noteq> '''') [node_A, node_B, node_C, node_D]),
        Ok \<lparr>Msg = CustomLeaderboardResponse (map Some sqs),
            Header = [(''Service-Version'', ''v1'')]\<rparr>) \<and>
     sorted_wrt (\<lambda>a b. length (svc_Output b) \<le> length (svc_Output a)) sqs \<and>
     list_all2 (converts Inr) gqs sqs \<and>
     mset gqs =
       mset (map (\<lambda>node. \<lparr>Node = node,
                           Output = ToArray (projr (dependencies_of_focus (Script focus_request)
                                      (storage (NewService diamond_storage 1)) (Name node)
                                      [node_A, node_B, node_C, node_D] () True))\<rparr>)
                 (filter (\<lambda>node. Name node \<noteq> '''') [node_A, node_B, node_C, node_D]))"
proof -
  let ?s = "NewService diamond_storage 1"
  let ?nodes = "[node_A, node_B, node_C, node_D]"
  have 1: "ToBeCached (storage ?s) = Inr []"
    by (simp add: NewService_def diamond_storage_def)
  have 2: "GetAllKeys (storage ?s) = Inr [1, 2, 3, 4]"
    by (simp add: NewService_def diamond_storage_def)
  have 3: "GetNodes (storage ?s) [1, 2, 3, 4] = Inr ?nodes"
    by (simp add: NewService_def diamond_storage_def)
  have 4: "GetCaches (storage ?s) [1, 2, 3, 4] = Inr ()"
    by (simp add: NewService_def diamond_storage_def)
  have 5: "0 < sint (concurrency ?s)"
    by (simp add: NewService_def)
  have names: "filter (\<lambda>node. Name node \<noteq> '''') ?nodes = ?nodes"
    by (simp add: node_A_def node_B_def node_C_def node_D_def)
  have 6: "schedule_ok (length (filter (\<lambda>node. Name node \<noteq> '''') ?nodes)) (in_order 4)"
    unfolding names by code_simp
  have 7: "\<forall>node \<in> set (filter (\<lambda>node. Name node \<noteq> '''') ?nodes).
             \<not> isl (dependencies_of_focus (Script focus_request) (storage ?s) (Name node)
                       ?nodes () True)"
    unfolding names
    by (simp add: dependencies_of_focus_def node_A_def node_B_def node_C_def node_D_def)
  have 8: "\<forall>node \<in> set (filter (\<lambda>node. Name node \<noteq> '''') ?nodes).
             \<not> isl (Inr (Metadata node) :: error + string)"
    by simp
  show ?thesis
    by (rule CustomLeaderboard_sorted_by_cardinality
        [where s = "?s" and keys = "[1, 2, 3, 4]" and nodes = "?nodes" and caches = "()"
           and sched = "in_order 4" and pe = dependencies_of_focus and req = focus_request
           and marshal = Inr and ctx = "Context None",
         OF 1 2 3 4 5 6 7 8])
qed

text \<open>
  The claim as stated fails on the tie-break and on determinism. On the diamond with the script
  \<^verbatim>\<open>dependencies * <focus>\<close> and a budget of 2, the workers may send in the order started;
  then the result is \<open>A, C, B, D\<close>, with \<open>C\<close> before \<open>B\<close> although both have one dependency.
  If the worker of \<open>C\<close> sends before that of \<open>B\<close>, the same graph and script give \<open>A, B, C, D\<close>.
  Both schedules respect the semaphore.
\<close>

theorem CustomLeaderboard_tie_order_counterexample:
  "schedule_ok 4 (in_order 4) \<and> admits 2 4 (in_order 4) \<and>
   schedule_ok 4 C_before_B \<and> admits 2 4 C_before_B \<and>
   snd (Service_CustomLeaderboard Inr dependencies_of_focus (in_order 4)
          (NewService diamond_storage 2) (Context None) focus_request) =
     Ok \<lparr>Msg = CustomLeaderboardResponse [Some entry_A, Some entry_C, Some entry_B, Some entry_D],
         Header = [(''Service-Version'', ''v1'')]\<rparr> \<and>
   snd (Service_CustomLeaderboard Inr dependencies_of_focus C_before_B
          (NewService diamond_storage 2) (Context None) focus_request) =
     Ok \<lparr>Msg = CustomLeaderboardResponse [Some entry_A, Some entry_B, Some entry_C, Some entry_D],
         Header = [(''Service-Version'', ''v1'')]\<rparr>"
  by code_simp

section \<open>Errors of the workers\<close>

text \<open>
  Claim C2 says that a failed evaluation always makes the leaderboard return the first error.
  The code reads \<^verbatim>\<open>errChan\<close> once, without blocking, right after the last worker is started and
  before it drains \<^verbatim>\<open>queryChan\<close>: an error sent after that read is never looked at.
  \<^item> On the diamond with a budget of 10 and a script that the evaluator rejects, all four workers
    are started at once; when the read comes before their messages, the four errors are lost
    and the call succeeds with an empty result.
  \<^item> On the diamond with a budget of 1 the evaluation for \<open>D\<close> alone fails; when its worker, the
    last to be started, sends after the read, the call succeeds with the three other entries.
\<close>

theorem CustomLeaderboard_late_error_is_lost:
  "schedule_ok 4 (check_first 4) \<and> admits 10 4 (check_first 4) \<and>
   Service_CustomLeaderboard Inr rejects_script (check_first 4)
       (NewService diamond_storage 10) (Context None) focus_request =
     ([Call_ToBeCached, Call_GetAllKeys, Call_GetNodes [1, 2, 3, 4],
       Call_GetCaches [1, 2, 3, 4], Call_ToBeCached, Call_ParseAndExecute ''A'',
       Call_ParseAndExecute ''B'', Call_ParseAndExecute ''C'', Call_ParseAndExecute ''D''],
      Ok \<lparr>Msg = CustomLeaderboardResponse [], Header = [(''Service-Version'', ''v1'')]\<rparr>) \<and>
   schedule_ok 4 (in_order 4) \<and> admits 1 4 (in_order 4) \<and>
   fails_on_D (Script focus_request) (storage (NewService diamond_storage 1)) ''D''
       [node_A, node_B, node_C, node_D] () True = Inl (External ''StorageError'') \<and>
   Service_CustomLeaderboard Inr fails_on_D (in_order 4)
       (NewService diamond_storage 1) (Context None) focus_request =
     ([Call_ToBeCached, Call_GetAllKeys, Call_GetNodes [1, 2, 3, 4],
       Call_GetCaches [1, 2, 3, 4], Call_ToBeCached, Call_ParseAndExecute ''A'',
       Call_ParseAndExecute ''B'', Call_ParseAndExecute ''C'', Call_ParseAndExecute ''D''],
      Ok \<lparr>Msg = CustomLeaderboardResponse [Some entry_A, Some entry_C, Some entry_B],
          Header = [(''Service-Version'', ''v1'')]\<rparr>)"
  by code_simp

text \<open>
  Claim C7 says that a successful leaderboard holds exactly one pair per named node. One
  evaluation is started per named node and none for a node without a name, but a call that
  loses a late error, as above, succeeds without the pair of the failed node: with the nodes
  \<open>A\<close>, a nameless node and \<open>D\<close>, the evaluations of \<open>A\<close> and \<open>D\<close> are started, that of \<open>D\<close>
  fails late, and the successful result holds the entry of \<open>A\<close> alone.
\<close>

theorem CustomLeaderboard_success_misses_named_node:
  "schedule_ok 2 (in_order 2) \<and> admits 1 2 (in_order 2) \<and>
   filter (\<lambda>node. Name node \<noteq> '''') [node_A, node_anonymous, node_D] = [node_A, node_D] \<and>
   Service_CustomLeaderboard Inr fails_on_D (in_order 2)
       (NewService anonymous_storage 1) (Context None) focus_request =
     ([Call_ToBeCached, Call_GetAllKeys, Call_GetNodes [1, 5, 4],
       Call_GetCaches [1, 5, 4], Call_ToBeCached, Call_ParseAndExecute ''A'',
       Call_ParseAndExecute ''D''],
      Ok \<lparr>Msg = CustomLeaderboardResponse [Some entry_A],
          Header = [(''Service-Version'', ''v1'')]\<rparr>)"
  by code_simp

section \<open>The concurrency budget and the cancellation token\<close>

text \<open>
  Claim C5, as the code has it. \<^verbatim>\<open>NewService\<close> stores the budget and \<^verbatim>\<open>CustomLeaderboard\<close>
  uses it only as the capacity of the semaphore; no value of it is rejected. With a budget of 0,
  an empty dirty set and successful loads, the call does one of two things, and neither is the
  return of an InvalidArgument error:
  \<^item> when the storage holds a named node, the call never returns: after the five reads it blocks
    on the first \<^verbatim>\<open>semaphore <- struct{}{}\<close>, before any evaluation is started, whatever the
    schedule;
  \<^item> when the storage holds no named node, no token is asked for and the call succeeds with an
    empty result.
\<close>

theorem CustomLeaderboard_zero_budget:
  assumes "sint (concurrency s) = 0"
    and "ToBeCached (storage s) = Inr []"
    and "GetAllKeys (storage s) = Inr keys"
    and "GetNodes (storage s) keys = Inr nodes"
    and "GetCaches (storage s) keys = Inr caches"
  shows "(filter (\<lambda>node. Name node \<noteq> '''') nodes \<noteq> [] \<longrightarrow>
            Service_CustomLeaderboard marshal pe sched s ctx req =
              ([Call_ToBeCached, Call_GetAllKeys, Call_GetNodes keys, Call_GetCaches keys,
                Call_ToBeCached], Blocked)) \<and>
         (filter (\<lambda>node. Name node \<noteq> '''') nodes = [] \<and> schedule_ok 0 sched \<longrightarrow>
            Service_CustomLeaderboard marshal pe sched s ctx req =
              ([Call_ToBeCached, Call_GetAllKeys, Call_GetNodes keys, Call_GetCaches keys,
                Call_ToBeCached],
               Ok \<lparr>Msg = CustomLeaderboardResponse [],
                   Header = [(''Service-Version'', ''v1'')]\<rparr>))"
proof (intro conjI impI)
  assume "filter (\<lambda>node. Name node \<noteq> '''') nodes \<noteq> []"
  then show "Service_CustomLeaderboard marshal pe sched s ctx req =
      ([Call_ToBeCached, Call_GetAllKeys, Call_GetNodes keys, Call_GetCaches keys,
        Call_ToBeCached], Blocked)"
    using assms
    by (simp add: Service_CustomLeaderboard_def leaderboard_fan_out_def heap_Init_Nil)
next
  assume a: "filter (\<lambda>node. Name node \<noteq> '''') nodes = [] \<and> schedule_ok 0 sched"
  then have "arrival sched = []" by (simp add: schedule_ok_0)
  then show "Service_CustomLeaderboard marshal pe sched s ctx req =
      ([Call_ToBeCached, Call_GetAllKeys, Call_GetNodes keys, Call_GetCaches keys,
        Call_ToBeCached],
       Ok \<lparr>Msg = CustomLeaderboardResponse [], Header = [(''Service-Version'', ''v1'')]\<rparr>)"
    using assms a
    by (simp add: Service_CustomLeaderboard_def leaderboard_fan_out_def heap_Init_Nil
        NewResponse_def Header_Set_def)
qed

text \<open>Both cases at work: the diamond, whose four nodes are named, and the storage without
  nodes, each with a budget of 0.\<close>

theorem CustomLeaderboard_zero_budget_witness:
  "filter (\<lambda>node. Name node \<noteq> '''') [node_A, node_B, node_C, node_D] \<noteq> [] \<and>
   Service_CustomLeaderboard Inr dependencies_of_focus (in_order 4)
       (NewService diamond_storage 0) (Context None) focus_request =
     ([Call_ToBeCached, Call_GetAllKeys, Call_GetNodes [1, 2, 3, 4],
       Call_GetCaches [1, 2, 3, 4], Call_ToBeCached], Blocked) \<and>
   filter (\<lambda>node. Name node \<noteq> '''') ([] :: string graph_Node list) = [] \<and>
   schedule_ok 0 (in_order 0) \<and>
   Service_CustomLeaderboard Inr dependencies_of_focus (in_order 0)
       (NewService empty_storage 0) (Context None) focus_request =
     ([Call_ToBeCached, Call_GetAllKeys, Call_GetNodes [], Call_GetCaches [], Call_ToBeCached],
      Ok \<lparr>Msg = CustomLeaderboardResponse [], Header = [(''Service-Version'', ''v1'')]\<rparr>)"
proof -
  let ?d = "NewService diamond_storage 0"
  let ?e = "NewService empty_storage 0"
  have d1: "sint (concurrency ?d) = 0" by (simp add: NewService_def)
  have d2: "ToBeCached (storage ?d) = Inr []"
    by (simp add: NewService_def diamond_storage_def)
  have d3: "GetAllKeys (storage ?d) = Inr [1, 2, 3, 4]"
    by (simp add: NewService_def diamond_storage_def)
  have d4: "GetNodes (storage ?d) [1, 2, 3, 4] = Inr [node_A, node_B, node_C, node_D]"
    by (simp add: NewService_def diamond_storage_def)
  have d5: "GetCaches (storage ?d) [1, 2, 3, 4] = Inr ()"
    by (simp add: NewService_def diamond_storage_def)
  have named: "filter (\<lambda>node. Name node \<noteq> '''') [node_A, node_B, node_C, node_D] \<noteq> []"
    by (simp add: node_A_def)
  have e1: "sint (concurrency ?e) = 0" by (simp add: NewService_def)
  have e2: "ToBeCached (storage ?e) = Inr []"
    by (simp add: NewService_def empty_storage_def diamond_storage_def)
  have e3: "GetAllKeys (storage ?e) = Inr []"
    by (simp add: NewService_def empty_storage_def diamond_storage_def)
  have e4: "GetNodes (storage ?e) [] = Inr []"
    by (simp add: NewService_def empty_storage_def diamond_storage_def)
  have e5: "GetCaches (storage ?e) [] = Inr ()"
    by (simp add: NewService_def empty_storage_def diamond_storage_def)
  have ok: "schedule_ok 0 (in_order 0)"
    by (simp add: schedule_ok_def in_order_def)
  show ?thesis
    using named ok
      CustomLeaderboard_zero_budget[OF d1 d2 d3 d4 d5, of Inr dependencies_of_focus
        "in_order 4" "Context None" focus_request]
      CustomLeaderboard_zero_budget[OF e1 e2 e3 e4 e5, of Inr dependencies_of_focus
        "in_order 0" "Context None" focus_request]
    by simp
qed

text \<open>
  The claim as stated fails on both counts it names. On the diamond with a budget of 0 the
  call hangs: the outcome is \<open>Blocked\<close>, no error is returned and no evaluation was started.
  On the storage without nodes the call succeeds with the empty leaderboard.
\<close>

theorem CustomLeaderboard_zero_budget_counterexample:
  "Service_CustomLeaderboard Inr dependencies_of_focus (in_order 4)
       (NewService diamond_storage 0) (Context None) focus_request =
     ([Call_ToBeCached, Call_GetAllKeys, Call_GetNodes [1, 2, 3, 4],
       Call_GetCaches [1, 2, 3, 4], Call_ToBeCached], Blocked) \<and>
   snd (Service_CustomLeaderboard Inr dependencies_of_focus (in_order 0)
          (NewService empty_storage 0) (Context None) focus_request) =
     Ok \<lparr>Msg = CustomLeaderboardResponse [], Header = [(''Service-Version'', ''v1'')]\<rparr>"
  by code_simp

text \<open>
  Claim C6, as the code has it. \<^verbatim>\<open>CustomLeaderboard\<close> never reads its context: whatever the
  state of the caller's cancellation token, the calls made and the outcome are the same.
\<close>

theorem CustomLeaderboard_ignores_context:
  "Service_CustomLeaderboard marshal pe sched s ctx req =
   Service_CustomLeaderboard marshal pe sched s ctx' req"
  by (simp add: Service_CustomLeaderboard_def)

text \<open>With a token that is cancelled before any worker has sent, the leaderboard of the
  diamond still returns all four entries and no cancellation error.\<close>

theorem CustomLeaderboard_cancelled_counterexample:
  "Service_CustomLeaderboard Inr dependencies_of_focus (in_order 4)
       (NewService diamond_storage 1) (Context (Some 0)) focus_request =
     ([Call_ToBeCached, Call_GetAllKeys, Call_GetNodes [1, 2, 3, 4],
       Call_GetCaches [1, 2, 3, 4], Call_ToBeCached, Call_ParseAndExecute ''A'',
       Call_ParseAndExecute ''B'', Call_ParseAndExecute ''C'', Call_ParseAndExecute ''D''],
      Ok \<lparr>Msg = CustomLeaderboardResponse [Some entry_A, Some entry_C, Some entry_B, Some entry_D],
          Header = [(''Service-Version'', ''v1'')]\<rparr>)"
  by code_simp

section \<open>The dirty-set check of Query\<close>

text \<open>
  Claim C4, as the code has it, with the evaluator's entry check taken from the specification.
  \<^verbatim>\<open>Query\<close> loads keys, nodes and caches before it reads the dirty set. When these loads
  succeed and the dirty set is not empty, it fails with the evaluator's NotCached error, wrapped
  as "failed to parse and execute script", whatever the rest of the evaluator would compute:
  the script is not evaluated. A load that fails comes first and decides the error.
\<close>

theorem Query_NotCached_after_loading:
  assumes "ToBeCached (storage s) = Inr dirty" and "dirty \<noteq> []"
    and "GetAllKeys (storage s) = Inr keys"
    and "GetNodes (storage s) keys = Inr nodes"
    and "GetCaches (storage s) keys = Inr caches"
  shows "Service_Query marshal (ParseAndExecute evaluate) s ctx (Some msg) =
           ([Call_GetAllKeys, Call_GetNodes keys, Call_GetCaches keys, Call_ToBeCached,
             Call_ParseAndExecute ''''],
            Inl (Wrapf ''failed to parse and execute script'' NotCached))"
  using assms by (simp add: Service_Query_def ParseAndExecute_def)

theorem Query_NotCached_after_loading_witness:
  "ToBeCached (storage (NewService dirty_storage 1)) = Inr [3] \<and> [3 :: 32 word] \<noteq> [] \<and>
   Service_Query Inr (ParseAndExecute evaluates_to_empty) (NewService dirty_storage 1)
       (Context None) (Some \<lparr>Script = ''dependencies library A''\<rparr>) =
     ([Call_GetAllKeys, Call_GetNodes [1, 2, 3, 4], Call_GetCaches [1, 2, 3, 4], Call_ToBeCached,
       Call_ParseAndExecute ''''],
      Inl (Wrapf ''failed to parse and execute script'' NotCached))"
proof -
  let ?s = "NewService dirty_storage 1"
  have 1: "ToBeCached (storage ?s) = Inr [3]"
    by (simp add: NewService_def dirty_storage_def diamond_storage_def)
  have 2: "[3 :: 32 word] \<noteq> []" by simp
  have 3: "GetAllKeys (storage ?s) = Inr [1, 2, 3, 4]"
    by (simp add: NewService_def dirty_storage_def diamond_storage_def)
  have 4: "GetNodes (storage ?s) [1, 2, 3, 4] = Inr [node_A, node_B, node_C, node_D]"
    by (simp add: NewService_def dirty_storage_def diamond_storage_def)
  have 5: "GetCaches (storage ?s) [1, 2, 3, 4] = Inr ()"
    by (simp add: NewService_def dirty_storage_def diamond_storage_def)
  show ?thesis
    using 1 2 Query_NotCached_after_loading[OF 1 2 3 4 5, of Inr evaluates_to_empty
        "Context None" "\<lparr>Script = ''dependencies library A''\<rparr>"]
    by simp
qed

text \<open>
  The claim as stated fails when a load fails first. In \<open>uncached_storage\<close> node 3 is dirty
  and its cache is missing, so \<^verbatim>\<open>GetCaches\<close> fails with NotFound: \<^verbatim>\<open>Query\<close> returns that error,
  wrapped as "failed to get caches by keys", and has not read the dirty set.
\<close>

theorem Query_NotCached_counterexample:
  "ToBeCached (storage (NewService uncached_storage 1)) = Inr [3] \<and>
   Service_Query Inr (ParseAndExecute evaluates_to_empty)
       (NewService uncached_storage 1) (Context None) (Some \<lparr>Script = ''dependencies library A''\<rparr>) =
     ([Call_GetAllKeys, Call_GetNodes [1, 2, 3, 4], Call_GetCaches [1, 2, 3, 4]],
      Inl (Wrapf ''failed to get caches by keys'' (External ''NotFound'')))"
  by (simp add: Service_Query_def NewService_def uncached_storage_def diamond_storage_def)

end
